theory Spec2Isabelle
  imports Main "HOL-Library.Word"
begin

unbundle bit_operations_syntax

section \<open>The Atmel Cortex-M4 (SAM D5x/E5x) target of edbg\<close>

text \<open>
  A shallow embedding of \<^verbatim>\<open>target_atmel_cm4v2.c\<close>. The functions of the C file talk to the
  chip through the DAP transport (\<^verbatim>\<open>dap_read_word\<close>, \<^verbatim>\<open>dap_write_word\<close>,
  \<^verbatim>\<open>dap_read_block\<close>, \<^verbatim>\<open>dap_write_block\<close>), print through \<^verbatim>\<open>verbose\<close> and
  \<^verbatim>\<open>message\<close>, and leave through \<^verbatim>\<open>error_exit\<close>. None of these is part of the C file:
  the transport is a parameter of the model, every call of it is appended to a trace, and
  \<^verbatim>\<open>error_exit\<close> is an error value that carries the state in which the call was made.
\<close>

type_synonym u8 = "8 word"
type_synonym u32 = "32 word"

subsection \<open>Definitions\<close>

definition FLASH_ADDR :: u32 where "FLASH_ADDR = 0"
definition FLASH_ROW_SIZE :: u32 where "FLASH_ROW_SIZE = 8192"
definition FLASH_PAGE_SIZE :: u32 where "FLASH_PAGE_SIZE = 512"
definition PAGES_IN_ERASE_BLOCK :: int where
  "PAGES_IN_ERASE_BLOCK = uint FLASH_ROW_SIZE div uint FLASH_PAGE_SIZE"

definition USER_ROW_ADDR :: u32 where "USER_ROW_ADDR = 0x00804000"
definition USER_ROW_SIZE :: int where "USER_ROW_SIZE = 512"
definition USER_ROW_PAGE_SIZE :: int where "USER_ROW_PAGE_SIZE = 16"

definition DHCSR :: u32 where "DHCSR = 0xe000edf0"
definition DEMCR :: u32 where "DEMCR = 0xe000edfc"
definition AIRCR :: u32 where "AIRCR = 0xe000ed0c"

definition DSU_CTRL_STATUS :: u32 where "DSU_CTRL_STATUS = 0x41002100"
definition DSU_DID :: u32 where "DSU_DID = 0x41002118"

definition DSU_CTRL_CE :: u32 where "DSU_CTRL_CE = push_bit 4 1"

definition DSU_STATUSA_DONE :: u32 where "DSU_STATUSA_DONE = push_bit 8 1"
definition DSU_STATUSB_PROT :: u32 where "DSU_STATUSB_PROT = push_bit 16 1"

definition NVMCTRL_CTRLA :: u32 where "NVMCTRL_CTRLA = 0x41004000"
definition NVMCTRL_CTRLB :: u32 where "NVMCTRL_CTRLB = 0x41004004"
definition NVMCTRL_PARAM :: u32 where "NVMCTRL_PARAM = 0x41004008"
definition NVMCTRL_INTFLAG_STATUS :: u32 where "NVMCTRL_INTFLAG_STATUS = 0x41004010"
definition NVMCTRL_ADDR :: u32 where "NVMCTRL_ADDR = 0x41004014"

definition NVMCTRL_STATUS_READY :: u32 where "NVMCTRL_STATUS_READY = push_bit 16 1"

definition NVMCTRL_CTRLA_AUTOWS :: u32 where "NVMCTRL_CTRLA_AUTOWS = push_bit 2 1"
definition NVMCTRL_CTRLA_WMODE_MAN :: u32 where "NVMCTRL_CTRLA_WMODE_MAN = push_bit 4 0"
definition NVMCTRL_CTRLA_PRM_MANUAL :: u32 where "NVMCTRL_CTRLA_PRM_MANUAL = push_bit 6 3"
definition NVMCTRL_CTRLA_CACHEDIS0 :: u32 where "NVMCTRL_CTRLA_CACHEDIS0 = push_bit 14 1"
definition NVMCTRL_CTRLA_CACHEDIS1 :: u32 where "NVMCTRL_CTRLA_CACHEDIS1 = push_bit 15 1"

definition NVMCTRL_CMD_EP :: u32 where "NVMCTRL_CMD_EP = 0xa500"
definition NVMCTRL_CMD_EB :: u32 where "NVMCTRL_CMD_EB = 0xa501"
definition NVMCTRL_CMD_WP :: u32 where "NVMCTRL_CMD_WP = 0xa503"
definition NVMCTRL_CMD_WQW :: u32 where "NVMCTRL_CMD_WQW = 0xa504"
definition NVMCTRL_CMD_UR :: u32 where "NVMCTRL_CMD_UR = 0xa512"
definition NVMCTRL_CMD_PBC :: u32 where "NVMCTRL_CMD_PBC = 0xa515"
definition NVMCTRL_CMD_SSB :: u32 where "NVMCTRL_CMD_SSB = 0xa516"

definition DEVICE_ID_MASK :: u32 where "DEVICE_ID_MASK = 0xfffff0ff"
definition DEVICE_REV_SHIFT :: nat where "DEVICE_REV_SHIFT = 8"
definition DEVICE_REV_MASK :: u32 where "DEVICE_REV_MASK = 0xf"

lemmas geometry_defs =
  FLASH_ADDR_def FLASH_ROW_SIZE_def FLASH_PAGE_SIZE_def PAGES_IN_ERASE_BLOCK_def
  USER_ROW_ADDR_def USER_ROW_SIZE_def USER_ROW_PAGE_SIZE_def

lemmas register_defs =
  DHCSR_def DEMCR_def AIRCR_def DSU_CTRL_STATUS_def DSU_DID_def DSU_CTRL_CE_def
  DSU_STATUSA_DONE_def DSU_STATUSB_PROT_def NVMCTRL_CTRLA_def NVMCTRL_CTRLB_def
  NVMCTRL_PARAM_def NVMCTRL_INTFLAG_STATUS_def NVMCTRL_ADDR_def NVMCTRL_STATUS_READY_def
  NVMCTRL_CTRLA_AUTOWS_def NVMCTRL_CTRLA_WMODE_MAN_def NVMCTRL_CTRLA_PRM_MANUAL_def
  NVMCTRL_CTRLA_CACHEDIS0_def NVMCTRL_CTRLA_CACHEDIS1_def

lemmas command_defs =
  NVMCTRL_CMD_EP_def NVMCTRL_CMD_EB_def NVMCTRL_CMD_WP_def NVMCTRL_CMD_WQW_def
  NVMCTRL_CMD_UR_def NVMCTRL_CMD_PBC_def NVMCTRL_CMD_SSB_def

lemmas device_id_defs = DEVICE_ID_MASK_def DEVICE_REV_SHIFT_def DEVICE_REV_MASK_def

subsection \<open>Types\<close>

text \<open>\<^verbatim>\<open>device_t\<close>. The name is a \<^verbatim>\<open>char *\<close>, which is \<^verbatim>\<open>NULL\<close> in the sentinel \<^verbatim>\<open>{ 0 }\<close>.\<close>

record device_t =
  dsu_did :: u32
  name :: "string option"
  flash_size :: u32

text \<open>
  \<^verbatim>\<open>target_options_t\<close> is declared in \<^verbatim>\<open>target.h\<close>, which is not part of the file. The
  fields are the ones the file reads, with the types the file uses them at: \<^verbatim>\<open>offset\<close>,
  \<^verbatim>\<open>size\<close> and \<^verbatim>\<open>file_size\<close> are assigned to \<^verbatim>\<open>uint32_t\<close> locals, \<^verbatim>\<open>fuse_start\<close> is
  compared with \<^verbatim>\<open>-1\<close>, \<^verbatim>\<open>fuse_size\<close> is assigned to an \<^verbatim>\<open>int\<close>. A buffer
  (\<^verbatim>\<open>file_data\<close>, \<^verbatim>\<open>fuse_data\<close>) is the list of the bytes allocated for it: its length is
  the capacity of the buffer, which the C code does not know. The fields \<^verbatim>\<open>name\<close> and
  \<^verbatim>\<open>size\<close> are \<open>file_name\<close> and \<open>size_opt\<close> here: \<open>name\<close> is a field of
  \<^verbatim>\<open>device_t\<close> already, and \<open>size\<close> is a constant of HOL.
\<close>

record target_options_t =
  fuse_read :: bool
  fuse_write :: bool
  fuse_verify :: bool
  fuse_section :: int
  fuse_start :: int
  fuse_end :: int
  fuse_value :: u32
  fuse_name :: "string option"
  file_name :: string
  offset :: u32
  size_opt :: u32
  file_size :: u32
  file_data :: "u8 list"
  fuse_size :: int
  fuse_data :: "u8 list"

text \<open>The ways the file leaves through \<^verbatim>\<open>error_exit\<close> or \<^verbatim>\<open>check\<close>.\<close>

datatype error =
    UnknownTargetDevice u32
  | DeviceLocked
  | VerificationFailed
  | UnsupportedFuseSection int
  | FuseVerificationFailed
  | FuseRangeRequired
  | OptionsRejected
  | BufferOverrun nat nat

text \<open>
  \<open>UnknownTargetDevice v\<close> is \<^verbatim>\<open>"unknown target device (DSU_DID = 0x%08x)"\<close>,
  \<open>DeviceLocked\<close> is \<^verbatim>\<open>"device is locked, perform a chip erase before programming"\<close>,
  \<open>VerificationFailed\<close> is \<^verbatim>\<open>"verification failed"\<close>,
  \<open>FuseVerificationFailed\<close> is either of the two \<^verbatim>\<open>"fuse verification failed"\<close> exits,
  \<open>FuseRangeRequired\<close> is \<^verbatim>\<open>"please specify fuse bit range for verification"\<close>.
  \<open>OptionsRejected\<close> is an exit taken inside \<^verbatim>\<open>target_check_options\<close>.
  \<open>BufferOverrun offs n\<close> is not an exit of the C code: it stands for the undefined
  behaviour of accessing \<open>n\<close> bytes at index \<open>offs\<close> of a buffer that is shorter than
  \<open>offs + n\<close>. The C code makes the access without a check.
\<close>

text \<open>What the file does to the outside, in the order it does it.\<close>

datatype event =
    WriteWord u32 u32
  | ReadWord u32 u32
  | WriteBlock u32 "u8 list"
  | ReadBlock u32 nat
  | Sleep nat
  | BufAlloc nat
  | BufFree
  | FreeOptions
  | SaveFile string "u8 list"
  | VerboseTarget "string option" u32
  | VerboseDot
  | VerboseMismatch u32 u8 u8
  | MessageFuseRow "u8 list"
  | MessageFuses u32
  | MessageFuseByte int u8 u8

text \<open>
  \<open>ReadWord a v\<close>: \<^verbatim>\<open>dap_read_word(a)\<close> returned \<open>v\<close>.
  \<open>VerboseTarget n c\<close>: \<^verbatim>\<open>verbose("Target: %s (Rev %c)\n", n, c)\<close>, with \<open>c\<close> the
  character code that is passed for \<^verbatim>\<open>%c\<close>.
  \<open>VerboseDot\<close>: \<^verbatim>\<open>verbose(".")\<close>.
  \<open>VerboseMismatch a e r\<close>: \<^verbatim>\<open>verbose("\nat address 0x%x expected 0x%02x, read 0x%02x\n", a, e, r)\<close>.
  \<open>MessageFuseRow bs\<close>: the \<^verbatim>\<open>"Fuses (user row): "\<close> line with every byte of the row.
  \<open>MessageFuses v\<close>: \<^verbatim>\<open>message("Fuses: 0x%x (%d)\n", v, v)\<close>.
  \<open>MessageFuseByte i e g\<close>: \<^verbatim>\<open>message("fuse byte %d expected 0x%02x, got 0x%02x", i, e, g)\<close>.
\<close>

text \<open>
  The collaborators that are not in the file. \<open>'s\<close> is the state of the chip and of the
  probe. \<open>read_block a n s\<close> gives the byte delivered at each index below \<open>n\<close>.
  \<open>check_options\<close> is \<^verbatim>\<open>target_check_options\<close>, which may change the options or exit
  (\<open>None\<close>); \<open>extract_value\<close> and \<open>apply_value\<close> are the bit-field helpers of the same
  names. \<^verbatim>\<open>apply_value\<close> changes the row in place: \<open>apply_value buf v s e i\<close> is the byte
  it leaves at index \<open>i\<close>.
\<close>

record 's transport =
  read_word :: "u32 \<Rightarrow> 's \<Rightarrow> u32 \<times> 's"
  write_word :: "u32 \<Rightarrow> u32 \<Rightarrow> 's \<Rightarrow> 's"
  read_block :: "u32 \<Rightarrow> nat \<Rightarrow> 's \<Rightarrow> (nat \<Rightarrow> u8) \<times> 's"
  write_block :: "u32 \<Rightarrow> u8 list \<Rightarrow> 's \<Rightarrow> 's"
  check_options :: "target_options_t \<Rightarrow> u32 \<Rightarrow> u32 \<Rightarrow> int \<Rightarrow> target_options_t option"
  extract_value :: "u8 list \<Rightarrow> int \<Rightarrow> int \<Rightarrow> u32"
  apply_value :: "u8 list \<Rightarrow> u32 \<Rightarrow> int \<Rightarrow> int \<Rightarrow> nat \<Rightarrow> u8"

text \<open>
  The state: the chip, the trace, and the two static variables of the file,
  \<^verbatim>\<open>target_device\<close> and \<^verbatim>\<open>target_options\<close>.
\<close>

record 's world =
  dev :: 's
  trace :: "event list"
  target_device :: device_t
  target_options :: target_options_t

text \<open>
  The result of an operation: \<open>None\<close> when it never returns (a poll that never sees its
  flag), \<open>Some (Inl (e, w))\<close> when it exits with \<open>e\<close> in state \<open>w\<close>, \<open>Some (Inr w)\<close>
  when it returns in state \<open>w\<close>.
\<close>

type_synonym 's outcome = "(error \<times> 's world + 's world) option"

subsection \<open>Variables\<close>

definition devices :: "device_t list" where
  "devices =
    [ \<lparr>dsu_did = 0x61840000, name = Some ''SAM E54P20A'', flash_size = 1*1024*1024\<rparr>,
      \<lparr>dsu_did = 0x60060000, name = Some ''SAM D51P20A'', flash_size = 1*1024*1024\<rparr>,
      \<lparr>dsu_did = 0, name = None, flash_size = 0\<rparr> ]"

subsection \<open>The facade\<close>

definition log :: "event \<Rightarrow> 's world \<Rightarrow> 's world" where
  "log e w = w\<lparr>trace := trace w @ [e]\<rparr>"

definition dap_write_word :: "'s transport \<Rightarrow> u32 \<Rightarrow> u32 \<Rightarrow> 's world \<Rightarrow> 's world" where
  "dap_write_word T a v w = log (WriteWord a v) (w\<lparr>dev := write_word T a v (dev w)\<rparr>)"

definition dap_read_word :: "'s transport \<Rightarrow> u32 \<Rightarrow> 's world \<Rightarrow> u32 \<times> 's world" where
  "dap_read_word T a w =
    (case read_word T a (dev w) of (v, s) \<Rightarrow> (v, log (ReadWord a v) (w\<lparr>dev := s\<rparr>)))"

definition dap_write_block :: "'s transport \<Rightarrow> u32 \<Rightarrow> u8 list \<Rightarrow> 's world \<Rightarrow> 's world" where
  "dap_write_block T a bs w = log (WriteBlock a bs) (w\<lparr>dev := write_block T a bs (dev w)\<rparr>)"

definition dap_read_block :: "'s transport \<Rightarrow> u32 \<Rightarrow> nat \<Rightarrow> 's world \<Rightarrow> u8 list \<times> 's world" where
  "dap_read_block T a n w =
    (case read_block T a n (dev w) of (f, s) \<Rightarrow> (map f [0..<n], log (ReadBlock a n) (w\<lparr>dev := s\<rparr>)))"

text \<open>
  \<^verbatim>\<open>while (0 == (dap_read_word(a) & m));\<close> The loop has no bound: when the flag never
  shows, it does not return.
\<close>

partial_function (option) poll :: "'s transport \<Rightarrow> u32 \<Rightarrow> u32 \<Rightarrow> 's world \<Rightarrow> 's world option" where
  "poll T a m w =
    (case dap_read_word T a w of (v, w') \<Rightarrow> if 0 = (v AND m) then poll T a m w' else Some w')"

text \<open>\<^verbatim>\<open>while (0 == (dap_read_word(NVMCTRL_INTFLAG_STATUS) & NVMCTRL_STATUS_READY));\<close>\<close>

definition wait_ready :: "'s transport \<Rightarrow> 's world \<Rightarrow> 's world option" where
  "wait_ready T w = poll T NVMCTRL_INTFLAG_STATUS NVMCTRL_STATUS_READY w"

text \<open>
  Buffers. \<open>slice buf offs n\<close> is \<^verbatim>\<open>&buf[offs]\<close> read for \<open>n\<close> bytes, \<open>byte_at buf i\<close>
  is \<^verbatim>\<open>buf[i]\<close>, \<open>store_at buf offs bytes\<close> is \<open>bytes\<close> written at \<^verbatim>\<open>&buf[offs]\<close>: each
  is \<open>None\<close> when the buffer does not have the bytes.
\<close>

definition slice :: "u8 list \<Rightarrow> nat \<Rightarrow> nat \<Rightarrow> u8 list option" where
  "slice buf offs n = (if offs + n \<le> length buf then Some (take n (drop offs buf)) else None)"

definition byte_at :: "u8 list \<Rightarrow> nat \<Rightarrow> u8 option" where
  "byte_at buf i = (if i < length buf then Some (buf ! i) else None)"

definition store_at :: "u8 list \<Rightarrow> nat \<Rightarrow> u8 list \<Rightarrow> u8 list option" where
  "store_at buf offs bytes =
    (if offs + length bytes \<le> length buf
     then Some (take offs buf @ bytes @ drop (offs + length bytes) buf) else None)"

subsection \<open>Implementations\<close>


text \<open>
  The loop of \<^verbatim>\<open>target_select\<close> over \<^verbatim>\<open>devices\<close>: it stops at the first entry whose
  \<^verbatim>\<open>dsu_did\<close> is not above zero, and leaves with the first entry equal to \<^verbatim>\<open>id\<close> before
  that. The array ends with the sentinel, so the loop never walks off it.
\<close>

fun find_device :: "device_t list \<Rightarrow> u32 \<Rightarrow> device_t option" where
  "find_device [] ident = None"
| "find_device (device # rest) ident =
    (if dsu_did device > 0
     then (if dsu_did device = ident then Some device else find_device rest ident)
     else None)"

text \<open>\<^verbatim>\<open>// Stop the core\<close>\<close>

definition stop_core :: "'s transport \<Rightarrow> 's world \<Rightarrow> 's world" where
  "stop_core T w =
    (let w = dap_write_word T DHCSR 0xa05f0003 w;
         w = dap_write_word T DEMCR 0x00000001 w;
         w = dap_write_word T AIRCR 0x05fa0004 w
     in w)"

definition target_select :: "'s transport \<Rightarrow> target_options_t \<Rightarrow> 's world \<Rightarrow> 's outcome" where
  "target_select T options w =
    (case dap_read_word T DSU_DID (stop_core T w) of (did, w) \<Rightarrow>
       (let ident = did AND DEVICE_ID_MASK;
            rev = (drop_bit DEVICE_REV_SHIFT did) AND DEVICE_REV_MASK
        in (case find_device devices ident of
              Some device \<Rightarrow>
                (let w = log (VerboseTarget (name device) (of_char CHR ''A'' + rev)) w;
                     w = w\<lparr>target_device := device\<rparr>;
                     w = w\<lparr>target_options := options\<rparr>
                 in (case check_options T (target_options w) (flash_size device)
                            FLASH_ROW_SIZE USER_ROW_SIZE of
                       Some checked \<Rightarrow> Some (Inr (w\<lparr>target_options := checked\<rparr>))
                     | None \<Rightarrow> Some (Inl (OptionsRejected, w))))
            | None \<Rightarrow> Some (Inl (UnknownTargetDevice did, w)))))"

definition target_deselect :: "'s transport \<Rightarrow> 's world \<Rightarrow> 's outcome" where
  "target_deselect T w =
    (let w = dap_write_word T DEMCR 0x00000000 w;
         w = dap_write_word T AIRCR 0x05fa0004 w
     in Some (Inr (log FreeOptions w)))"

definition target_erase :: "'s transport \<Rightarrow> 's world \<Rightarrow> 's outcome" where
  "target_erase T w =
    (let w = dap_write_word T DSU_CTRL_STATUS DSU_CTRL_CE w;
         w = log (Sleep 100) w
     in (case poll T DSU_CTRL_STATUS DSU_STATUSA_DONE w of
           None \<Rightarrow> None
         | Some w \<Rightarrow> Some (Inr w)))"

definition target_lock :: "'s transport \<Rightarrow> 's world \<Rightarrow> 's outcome" where
  "target_lock T w = Some (Inr (dap_write_word T NVMCTRL_CTRLA NVMCTRL_CMD_SSB w))"

text \<open>
  The inner loop of \<^verbatim>\<open>target_program\<close>, \<^verbatim>\<open>for (int page = 0; page < PAGES_IN_ERASE_BLOCK; page++)\<close>,
  from the value \<open>page\<close> of its counter on. The loop changes \<^verbatim>\<open>addr\<close> and \<^verbatim>\<open>offs\<close>.
\<close>

function program_pages ::
  "'s transport \<Rightarrow> u8 list \<Rightarrow> int \<Rightarrow> u32 \<times> u32 \<times> 's world \<Rightarrow> (error \<times> 's world + u32 \<times> u32 \<times> 's world) option"
where
  "program_pages T buf page (addr, offs, w) =
    (if page < PAGES_IN_ERASE_BLOCK then
       (let w = dap_write_word T NVMCTRL_ADDR addr w;
            w = dap_write_word T NVMCTRL_CTRLB NVMCTRL_CMD_PBC w
        in (case wait_ready T w of
              None \<Rightarrow> None
            | Some w \<Rightarrow>
               (case slice buf (unat offs) (unat FLASH_PAGE_SIZE) of
                  None \<Rightarrow> Some (Inl (BufferOverrun (unat offs) (unat FLASH_PAGE_SIZE), w))
                | Some bytes \<Rightarrow>
                   (let w = dap_write_block T addr bytes w;
                        w = dap_write_word T NVMCTRL_CTRLB NVMCTRL_CMD_WP w
                    in (case wait_ready T w of
                          None \<Rightarrow> None
                        | Some w \<Rightarrow>
                            program_pages T buf (page + 1)
                              (addr + FLASH_PAGE_SIZE, offs + FLASH_PAGE_SIZE, w))))))
     else Some (Inr (addr, offs, w)))"
  by pat_completeness auto
termination
  by (relation "measure (\<lambda>(T, buf, page, st). nat (PAGES_IN_ERASE_BLOCK - page))") auto

text \<open>
  The outer loop, \<^verbatim>\<open>for (uint32_t row = 0; row < number_of_rows; row++)\<close>, from the value
  \<open>row\<close> of its counter on.
\<close>

function program_rows ::
  "'s transport \<Rightarrow> u8 list \<Rightarrow> u32 \<Rightarrow> u32 \<Rightarrow> u32 \<times> u32 \<times> 's world \<Rightarrow> 's outcome"
where
  "program_rows T buf number_of_rows row (addr, offs, w) =
    (if row < number_of_rows then
       (let w = dap_write_word T NVMCTRL_ADDR addr w;
            w = dap_write_word T NVMCTRL_CTRLB NVMCTRL_CMD_UR w
        in (case wait_ready T w of
              None \<Rightarrow> None
            | Some w \<Rightarrow>
               (let w = dap_write_word T NVMCTRL_CTRLB NVMCTRL_CMD_EB w
                in (case wait_ready T w of
                      None \<Rightarrow> None
                    | Some w \<Rightarrow>
                       (case program_pages T buf 0 (addr, offs, w) of
                          None \<Rightarrow> None
                        | Some (Inl e) \<Rightarrow> Some (Inl e)
                        | Some (Inr (addr, offs, w)) \<Rightarrow>
                            program_rows T buf number_of_rows (row + 1)
                              (addr, offs, log VerboseDot w))))))
     else Some (Inr w))"
  by pat_completeness auto
termination
proof (relation "measure (\<lambda>(T, buf, number_of_rows, row, st). unat number_of_rows - unat row)")
  show "wf (measure (\<lambda>(T, buf, number_of_rows, row, st). unat number_of_rows - unat row))"
    by simp
next
  fix number_of_rows row :: u32
  assume lt: "row < number_of_rows"
  have below: "unat row < unat number_of_rows"
    using lt by (simp add: word_less_nat_alt)
  moreover have "unat number_of_rows < 2 ^ 32"
    using unsigned_less [of number_of_rows] by simp
  ultimately have "unat row + unat (1::u32) < 2 ^ LENGTH(32)"
    by simp
  then have "unat (row + 1) = unat row + unat (1::u32)"
    by (simp only: unat_add_lem)
  then show "\<And>T buf addr offs w x xa xb xc y xd ya.
       ((T, buf, number_of_rows, row + 1, xd, ya, log VerboseDot (xc::'s world)),
        (T, buf, number_of_rows, row, addr, offs, w))
       \<in> measure (\<lambda>(T, buf, number_of_rows, row, st). unat number_of_rows - unat row)"
    using below by simp
qed

definition target_program :: "'s transport \<Rightarrow> 's world \<Rightarrow> 's outcome" where
  "target_program T w =
    (let addr = FLASH_ADDR + offset (target_options w);
         offs = 0;
         buf = file_data (target_options w);
         size = file_size (target_options w)
     in (case dap_read_word T DSU_CTRL_STATUS w of (status, w) \<Rightarrow>
          if (status AND DSU_STATUSB_PROT) \<noteq> 0 then Some (Inl (DeviceLocked, w))
          else
            (let w = dap_write_word T NVMCTRL_CTRLA
                       (NVMCTRL_CTRLA_AUTOWS OR NVMCTRL_CTRLA_WMODE_MAN OR
                        NVMCTRL_CTRLA_PRM_MANUAL OR NVMCTRL_CTRLA_CACHEDIS0 OR
                        NVMCTRL_CTRLA_CACHEDIS1) w;
                 number_of_rows = (size + FLASH_ROW_SIZE - 1) div FLASH_ROW_SIZE
             in program_rows T buf number_of_rows 0 (addr, offs, w))))"

text \<open>
  The \<^verbatim>\<open>for (int i = 0; i < (int)block_size; i++)\<close> loop of \<^verbatim>\<open>target_verify\<close>, from the
  value \<open>i\<close> of its counter on. \<open>bufb\<close> is the page that was read back.
\<close>

function verify_compare ::
  "u8 list \<Rightarrow> u8 list \<Rightarrow> u32 \<Rightarrow> u32 \<Rightarrow> u32 \<Rightarrow> int \<Rightarrow> 's world \<Rightarrow> 's outcome"
where
  "verify_compare bufa bufb addr offs block_size i w =
    (if i < sint block_size then
       (case byte_at bufa (unat (offs + word_of_int i)) of
          None \<Rightarrow> Some (Inl (BufferOverrun (unat (offs + word_of_int i)) 1, w))
        | Some expected \<Rightarrow>
           (case byte_at bufb (nat i) of
              None \<Rightarrow> Some (Inl (BufferOverrun (nat i) 1, w))
            | Some got \<Rightarrow>
               if expected \<noteq> got then
                 (let w = log (VerboseMismatch (addr + word_of_int i) expected got) w;
                      w = log BufFree w
                  in Some (Inl (VerificationFailed, w)))
               else verify_compare bufa bufb addr offs block_size (i + 1) w))
     else Some (Inr w))"
  by pat_completeness auto
termination
  by (relation "measure (\<lambda>(bufa, bufb, addr, offs, block_size, i, w). nat (sint block_size - i))")
    auto

text \<open>The \<^verbatim>\<open>while (size)\<close> loop of \<^verbatim>\<open>target_verify\<close>.\<close>

function verify_blocks ::
  "'s transport \<Rightarrow> u8 list \<Rightarrow> u32 \<Rightarrow> u32 \<Rightarrow> u32 \<Rightarrow> 's world \<Rightarrow> 's outcome"
where
  "verify_blocks T bufa addr offs sz w =
    (if sz \<noteq> 0 then
       (case dap_read_block T addr (unat FLASH_PAGE_SIZE) w of (bufb, w) \<Rightarrow>
          (let block_size = (if sz > FLASH_PAGE_SIZE then FLASH_PAGE_SIZE else sz)
           in (case verify_compare bufa bufb addr offs block_size 0 w of
                 None \<Rightarrow> None
               | Some (Inl e) \<Rightarrow> Some (Inl e)
               | Some (Inr w) \<Rightarrow>
                   verify_blocks T bufa (addr + FLASH_PAGE_SIZE) (offs + FLASH_PAGE_SIZE)
                     (sz - block_size) (log VerboseDot w))))
     else Some (Inr w))"
  by pat_completeness auto
termination
proof (relation "measure (\<lambda>(T, bufa, addr, offs, sz, w). unat sz)")
  show "wf (measure (\<lambda>(T, bufa, addr, offs, sz, w). unat sz))"
    by simp
next
  fix sz block_size :: u32
  assume nz: "sz \<noteq> 0"
    and bs: "block_size = (if FLASH_PAGE_SIZE < sz then FLASH_PAGE_SIZE else sz)"
  have le: "block_size \<le> sz"
    using bs by (simp add: less_imp_le)
  have pos: "0 < unat block_size"
    using bs nz by (auto simp: FLASH_PAGE_SIZE_def unat_gt_0)
  have "unat (sz - block_size) = unat sz - unat block_size"
    using le by (simp add: unat_sub)
  moreover have "unat block_size \<le> unat sz"
    using le by (simp add: word_le_nat_alt)
  ultimately show "\<And>T bufa addr offs w x xa y x2 xb.
       ((T, bufa, addr + FLASH_PAGE_SIZE, offs + FLASH_PAGE_SIZE, sz - block_size,
         log VerboseDot (xb::'s world)), T, bufa, addr, offs, sz, w)
       \<in> measure (\<lambda>(T, bufa, addr, offs, sz, w). unat sz)"
    using pos by simp
qed

definition target_verify :: "'s transport \<Rightarrow> 's world \<Rightarrow> 's outcome" where
  "target_verify T w =
    (let addr = FLASH_ADDR + offset (target_options w);
         offs = 0;
         bufa = file_data (target_options w);
         size = file_size (target_options w);
         w = log (BufAlloc (unat FLASH_PAGE_SIZE)) w
     in (case verify_blocks T bufa addr offs size w of
           None \<Rightarrow> None
         | Some (Inl e) \<Rightarrow> Some (Inl e)
         | Some (Inr w) \<Rightarrow> Some (Inr (log BufFree w))))"

text \<open>
  The \<^verbatim>\<open>while (size)\<close> loop of \<^verbatim>\<open>target_read\<close>. \<^verbatim>\<open>size\<close> goes down by the page size
  whatever its value, so the loop has no bound. A block is read into the buffer of
  \<^verbatim>\<open>target_options.file_data\<close>.
\<close>

partial_function (option) read_blocks ::
  "'s transport \<Rightarrow> u32 \<Rightarrow> u32 \<Rightarrow> u32 \<Rightarrow> 's world \<Rightarrow> (error \<times> 's world + 's world) option"
where
  "read_blocks T addr offs sz w =
    (if sz \<noteq> 0 then
       (case dap_read_block T addr (unat FLASH_PAGE_SIZE) w of (bytes, w) \<Rightarrow>
          (case store_at (file_data (target_options w)) (unat offs) bytes of
             None \<Rightarrow> Some (Inl (BufferOverrun (unat offs) (unat FLASH_PAGE_SIZE), w))
           | Some buf \<Rightarrow>
               read_blocks T (addr + FLASH_PAGE_SIZE) (offs + FLASH_PAGE_SIZE)
                 (sz - FLASH_PAGE_SIZE)
                 (log VerboseDot (w\<lparr>target_options := (target_options w)\<lparr>file_data := buf\<rparr>\<rparr>))))
     else Some (Inr w))"

definition target_read :: "'s transport \<Rightarrow> 's world \<Rightarrow> 's outcome" where
  "target_read T w =
    (let addr = FLASH_ADDR + offset (target_options w);
         offs = 0;
         size = size_opt (target_options w)
     in (case read_blocks T addr offs size w of
           None \<Rightarrow> None
         | Some (Inl e) \<Rightarrow> Some (Inl e)
         | Some (Inr w) \<Rightarrow>
            (case slice (file_data (target_options w)) 0 (unat (size_opt (target_options w))) of
               None \<Rightarrow> Some (Inl (BufferOverrun 0 (unat (size_opt (target_options w))), w))
             | Some bytes \<Rightarrow>
                 Some (Inr (log (SaveFile (file_name (target_options w)) bytes) w)))))"

text \<open>The \<^verbatim>\<open>if (target_options.fuse_read)\<close> block of \<^verbatim>\<open>target_fuse\<close>.\<close>

definition fuse_read_block :: "'s transport \<Rightarrow> bool \<Rightarrow> u8 list \<Rightarrow> 's world \<Rightarrow> 's world" where
  "fuse_read_block T read_all buf w =
    (if fuse_read (target_options w) then
       (case fuse_name (target_options w) of
          Some n \<Rightarrow> log (SaveFile n (take (nat USER_ROW_SIZE) buf)) w
        | None \<Rightarrow>
            if read_all then log (MessageFuseRow (take (nat USER_ROW_SIZE) buf)) w
            else
              (let value = extract_value T buf (fuse_start (target_options w))
                             (fuse_end (target_options w))
               in log (MessageFuses value) w))
     else w)"

text \<open>
  The \<^verbatim>\<open>for (int i = 0; i < (USER_ROW_SIZE / USER_ROW_PAGE_SIZE); i++)\<close> loop of the
  \<^verbatim>\<open>if (target_options.fuse_write)\<close> block.
\<close>

function fuse_write_pages ::
  "'s transport \<Rightarrow> u8 list \<Rightarrow> int \<Rightarrow> u32 \<times> u32 \<times> 's world \<Rightarrow> 's outcome"
where
  "fuse_write_pages T buf i (addr, offs, w) =
    (if i < USER_ROW_SIZE div USER_ROW_PAGE_SIZE then
       (let w = dap_write_word T NVMCTRL_ADDR USER_ROW_ADDR w
        in (case slice buf (unat offs) (nat USER_ROW_PAGE_SIZE) of
              None \<Rightarrow> Some (Inl (BufferOverrun (unat offs) (nat USER_ROW_PAGE_SIZE), w))
            | Some bytes \<Rightarrow>
               (let w = dap_write_block T addr bytes w;
                    w = dap_write_word T NVMCTRL_CTRLB NVMCTRL_CMD_WQW w
                in (case wait_ready T w of
                      None \<Rightarrow> None
                    | Some w \<Rightarrow>
                        fuse_write_pages T buf (i + 1)
                          (addr + word_of_int USER_ROW_PAGE_SIZE,
                           offs + word_of_int USER_ROW_PAGE_SIZE, w)))))
     else Some (Inr w))"
  by pat_completeness auto
termination
  by (relation "measure (\<lambda>(T, buf, i, st). nat (USER_ROW_SIZE div USER_ROW_PAGE_SIZE - i))")
    auto

text \<open>
  The \<^verbatim>\<open>if (target_options.fuse_write)\<close> block. With a file, the first \<open>sz\<close> bytes of
  the row are replaced by the first \<open>sz\<close> bytes of \<^verbatim>\<open>fuse_data\<close>; without one,
  \<^verbatim>\<open>apply_value\<close> changes the row.
\<close>

definition fuse_write_block ::
  "'s transport \<Rightarrow> int \<Rightarrow> u8 list \<Rightarrow> 's world \<Rightarrow> 's outcome"
where
  "fuse_write_block T sz buf w =
    (if fuse_write (target_options w) then
       (case (case fuse_name (target_options w) of
                Some n \<Rightarrow>
                  (case slice (fuse_data (target_options w)) 0 (nat sz) of
                     None \<Rightarrow> None
                   | Some bytes \<Rightarrow> store_at buf 0 bytes)
              | None \<Rightarrow>
                  Some (map (apply_value T buf (fuse_value (target_options w))
                               (fuse_start (target_options w)) (fuse_end (target_options w)))
                          [0..<length buf])) of
          None \<Rightarrow> Some (Inl (BufferOverrun 0 (nat sz), w))
        | Some buf \<Rightarrow>
           (let w = dap_write_word T NVMCTRL_ADDR USER_ROW_ADDR w;
                w = dap_write_word T NVMCTRL_CTRLB NVMCTRL_CMD_EP w
            in (case wait_ready T w of
                  None \<Rightarrow> None
                | Some w \<Rightarrow>
                   (let w = dap_write_word T NVMCTRL_CTRLB NVMCTRL_CMD_PBC w
                    in (case wait_ready T w of
                          None \<Rightarrow> None
                        | Some w \<Rightarrow> fuse_write_pages T buf 0 (USER_ROW_ADDR, 0, w))))))
     else Some (Inr w))"

text \<open>
  The \<^verbatim>\<open>for (int i = 0; i < size; i++)\<close> loop of the \<^verbatim>\<open>if (target_options.fuse_verify)\<close>
  block, from the value \<open>i\<close> of its counter on.
\<close>

function fuse_compare :: "u8 list \<Rightarrow> u8 list \<Rightarrow> int \<Rightarrow> int \<Rightarrow> 's world \<Rightarrow> 's outcome" where
  "fuse_compare data buf sz i w =
    (if i < sz then
       (case byte_at data (nat i) of
          None \<Rightarrow> Some (Inl (BufferOverrun (nat i) 1, w))
        | Some expected \<Rightarrow>
           (case byte_at buf (nat i) of
              None \<Rightarrow> Some (Inl (BufferOverrun (nat i) 1, w))
            | Some got \<Rightarrow>
               if expected \<noteq> got then
                 Some (Inl (FuseVerificationFailed, log (MessageFuseByte i expected got) w))
               else fuse_compare data buf sz (i + 1) w))
     else Some (Inr w))"
  by pat_completeness auto
termination
  by (relation "measure (\<lambda>(data, buf, sz, i, w). nat (sz - i))") auto

text \<open>The \<^verbatim>\<open>if (target_options.fuse_verify)\<close> block.\<close>

definition fuse_verify_block :: "'s transport \<Rightarrow> bool \<Rightarrow> int \<Rightarrow> 's world \<Rightarrow> 's outcome" where
  "fuse_verify_block T read_all sz w =
    (if fuse_verify (target_options w) then
       (case dap_read_block T USER_ROW_ADDR (nat USER_ROW_SIZE) w of (buf, w) \<Rightarrow>
          (case fuse_name (target_options w) of
             Some n \<Rightarrow> fuse_compare (fuse_data (target_options w)) buf sz 0 w
           | None \<Rightarrow>
               if read_all then Some (Inl (FuseRangeRequired, w))
               else
                 (let value = extract_value T buf (fuse_start (target_options w))
                                (fuse_end (target_options w))
                  in if fuse_value (target_options w) \<noteq> value
                     then Some (Inl (FuseVerificationFailed, w))
                     else Some (Inr w))))
     else Some (Inr w))"

definition target_fuse :: "'s transport \<Rightarrow> 's world \<Rightarrow> 's outcome" where
  "target_fuse T w =
    (let read_all = (-1 = fuse_start (target_options w));
         size = (if fuse_size (target_options w) < USER_ROW_SIZE
                 then fuse_size (target_options w) else USER_ROW_SIZE)
     in if \<not> (0 = fuse_section (target_options w))
        then Some (Inl (UnsupportedFuseSection (fuse_section (target_options w)), w))
        else
          (case dap_read_block T USER_ROW_ADDR (nat USER_ROW_SIZE) w of (buf, w) \<Rightarrow>
             (let w = fuse_read_block T read_all buf w
              in (case fuse_write_block T size buf w of
                    None \<Rightarrow> None
                  | Some (Inl e) \<Rightarrow> Some (Inl e)
                  | Some (Inr w) \<Rightarrow> fuse_verify_block T read_all size w))))"

subsection \<open>Assumptions on the transport\<close>

text \<open>The ready flag shows after finitely many reads, from every state.\<close>

definition responsive :: "'s transport \<Rightarrow> bool" where
  "responsive T \<longleftrightarrow> (\<forall>w. wait_ready T w \<noteq> None)"

text \<open>
  \<open>reads_store T store\<close>: a block read returns the bytes of the memory \<open>store s\<close> at the
  addresses it is asked for, and leaves the memory as it is.
\<close>

definition reads_store :: "'s transport \<Rightarrow> ('s \<Rightarrow> u32 \<Rightarrow> u8) \<Rightarrow> bool" where
  "reads_store T store \<longleftrightarrow>
    (\<forall>a n s i. i < n \<longrightarrow> fst (read_block T a n s) i = store s (a + of_nat i)) \<and>
    (\<forall>a n s. store (snd (read_block T a n s)) = store s)"

text \<open>
  \<open>spy T store\<close>: moreover a block write puts its bytes into the memory at the addresses it
  is given, and word accesses leave the memory as it is.
\<close>

definition spy :: "'s transport \<Rightarrow> ('s \<Rightarrow> u32 \<Rightarrow> u8) \<Rightarrow> bool" where
  "spy T store \<longleftrightarrow>
    reads_store T store \<and>
    (\<forall>a bs s x. store (write_block T a bs s) x =
       (if unat (x - a) < length bs then bs ! unat (x - a) else store s x)) \<and>
    (\<forall>a v s. store (write_word T a v s) = store s) \<and>
    (\<forall>a s. store (snd (read_word T a s)) = store s)"

subsection \<open>Reading the trace\<close>

definition block_writes :: "event list \<Rightarrow> (u32 \<times> u8 list) list" where
  "block_writes tr = List.map_filter (\<lambda>e. case e of WriteBlock a bs \<Rightarrow> Some (a, bs) | _ \<Rightarrow> None) tr"

text \<open>The values written to \<^verbatim>\<open>NVMCTRL_CTRLB\<close>.\<close>

definition commands :: "event list \<Rightarrow> u32 list" where
  "commands tr =
    List.map_filter
      (\<lambda>e. case e of WriteWord a v \<Rightarrow> if a = NVMCTRL_CTRLB then Some v else None | _ \<Rightarrow> None) tr"

text \<open>The events that write to the chip.\<close>

fun is_write :: "event \<Rightarrow> bool" where
  "is_write (WriteWord a v) = True"
| "is_write (WriteBlock a bs) = True"
| "is_write e = False"

definition writes :: "event list \<Rightarrow> event list" where
  "writes tr = filter is_write tr"

text \<open>
  The writes of \<^verbatim>\<open>target_program\<close> for the page with index \<open>p\<close> of the image \<open>buf\<close>
  programmed at \<open>base\<close>, for the row with index \<open>r\<close>, and for \<open>rows\<close> rows.
\<close>

definition page_writes :: "u32 \<Rightarrow> u8 list \<Rightarrow> nat \<Rightarrow> event list" where
  "page_writes base buf p =
    [ WriteWord NVMCTRL_ADDR (base + of_nat (512 * p)),
      WriteWord NVMCTRL_CTRLB NVMCTRL_CMD_PBC,
      WriteBlock (base + of_nat (512 * p)) (take 512 (drop (512 * p) buf)),
      WriteWord NVMCTRL_CTRLB NVMCTRL_CMD_WP ]"

definition row_writes :: "u32 \<Rightarrow> u8 list \<Rightarrow> nat \<Rightarrow> event list" where
  "row_writes base buf r =
    [ WriteWord NVMCTRL_ADDR (base + of_nat (8192 * r)),
      WriteWord NVMCTRL_CTRLB NVMCTRL_CMD_UR,
      WriteWord NVMCTRL_CTRLB NVMCTRL_CMD_EB ]
    @ concat (map (page_writes base buf) [16 * r..<16 * r + 16])"

definition program_writes :: "u32 \<Rightarrow> u8 list \<Rightarrow> nat \<Rightarrow> event list" where
  "program_writes base buf rows =
    WriteWord NVMCTRL_CTRLA 0xc0c4 # concat (map (row_writes base buf) [0..<rows])"

text \<open>
  The events of \<^verbatim>\<open>target_verify\<close> for the pages with the indices from \<open>m\<close> up to
  \<open>n\<close> (not included), when they agree with the image, and of \<^verbatim>\<open>target_read\<close> for
  these pages: a block read and a progress mark for each.
\<close>

definition page_reads :: "u32 \<Rightarrow> nat \<Rightarrow> nat \<Rightarrow> event list" where
  "page_reads base m n =
    concat (map (\<lambda>j. [ReadBlock (base + of_nat (512 * j)) 512, VerboseDot]) [m..<n])"

text \<open>The number of block writes in the trace of a run that has returned.\<close>

definition block_write_count :: "'s outcome \<Rightarrow> nat option" where
  "block_write_count r =
    (case r of Some (Inr w) \<Rightarrow> Some (length (block_writes (trace w))) | _ \<Rightarrow> None)"

text \<open>A property of the state that every call of the facade keeps.\<close>

definition stable :: "'s transport \<Rightarrow> ('s world \<Rightarrow> bool) \<Rightarrow> bool" where
  "stable T P \<longleftrightarrow>
    (\<forall>w a v. P w \<longrightarrow> P (dap_write_word T a v w)) \<and>
    (\<forall>w a. P w \<longrightarrow> P (snd (dap_read_word T a w))) \<and>
    (\<forall>w a bs. P w \<longrightarrow> P (dap_write_block T a bs w)) \<and>
    (\<forall>w a n. P w \<longrightarrow> P (snd (dap_read_block T a n w))) \<and>
    (\<forall>w. P w \<longrightarrow> P (log VerboseDot w))"

text \<open>The memory after the block writes of a trace.\<close>

fun replay :: "(u32 \<times> u8 list) list \<Rightarrow> (u32 \<Rightarrow> u8) \<Rightarrow> u32 \<Rightarrow> u8" where
  "replay [] m = m"
| "replay ((a, bs) # ws) m =
    replay ws (\<lambda>x. if unat (x - a) < length bs then bs ! unat (x - a) else m x)"

text \<open>The value that \<^verbatim>\<open>target_select\<close> reads from the identification register.\<close>

definition identification :: "'s transport \<Rightarrow> 's world \<Rightarrow> u32" where
  "identification T w = fst (read_word T DSU_DID (dev (stop_core T w)))"

text \<open>An outcome without its state.\<close>

definition verdict :: "'s outcome \<Rightarrow> (error + unit) option" where
  "verdict r = map_option (map_sum fst (\<lambda>w. ())) r"

subsection \<open>A transport for the examples\<close>

text \<open>
  A chip that is a memory for the block transfers, that is always ready and done, that
  answers \<open>did\<close> as its identification, and that shows the protection bit when \<open>locked\<close>.
  Its option check accepts every option; its bit-field helpers do nothing.
\<close>

record chip =
  flash :: "u32 \<Rightarrow> u8"
  did :: u32
  locked :: bool

definition chip_transport :: "chip transport" where
  "chip_transport =
    \<lparr> read_word = (\<lambda>a s.
        (if a = NVMCTRL_INTFLAG_STATUS then NVMCTRL_STATUS_READY
         else if a = DSU_CTRL_STATUS
           then DSU_STATUSA_DONE OR (if locked s then DSU_STATUSB_PROT else 0)
         else if a = DSU_DID then did s
         else 0, s)),
      write_word = (\<lambda>a v s. s),
      read_block = (\<lambda>a n s. (\<lambda>i. flash s (a + of_nat i), s)),
      write_block = (\<lambda>a bs s.
        s\<lparr>flash := (\<lambda>x. if unat (x - a) < length bs then bs ! unat (x - a) else flash s x)\<rparr>),
      check_options = (\<lambda>opts fl row fuse. Some opts),
      extract_value = (\<lambda>buf s e. 0),
      apply_value = (\<lambda>buf v s e i. buf ! i) \<rparr>"

definition chip0 :: "u32 \<Rightarrow> bool \<Rightarrow> chip" where
  "chip0 v l = \<lparr>flash = (\<lambda>x. 0xff), did = v, locked = l\<rparr>"

text \<open>Options for an image \<open>buf\<close> of \<open>n\<close> bytes at offset 0, and no fuse access.\<close>

definition options0 :: "u8 list \<Rightarrow> u32 \<Rightarrow> target_options_t" where
  "options0 buf n =
    \<lparr> fuse_read = False, fuse_write = False, fuse_verify = False, fuse_section = 0,
      fuse_start = -1, fuse_end = -1, fuse_value = 0, fuse_name = None,
      file_name = ''image.bin'', offset = 0, size_opt = n, file_size = n, file_data = buf,
      fuse_size = 0, fuse_data = [] \<rparr>"

definition world0 :: "chip \<Rightarrow> device_t \<Rightarrow> target_options_t \<Rightarrow> chip world" where
  "world0 c d opts = \<lparr>dev = c, trace = [], target_device = d, target_options = opts\<rparr>"

text \<open>
  A session with an unlocked SAM E54P20A whose flash is erased: the image buffer \<open>buf\<close>,
  of which the first \<open>n\<close> bytes are the image.
\<close>

definition session0 :: "u8 list \<Rightarrow> u32 \<Rightarrow> chip world" where
  "session0 buf n = world0 (chip0 0x61840000 False) (devices ! 0) (options0 buf n)"

section \<open>Properties\<close>

subsection \<open>The facade and the trace\<close>

lemma trace_log [simp]: "trace (log e w) = trace w @ [e]"
  by (simp add: log_def)

lemma dev_log [simp]: "dev (log e w) = dev w"
  by (simp add: log_def)

lemma target_options_log [simp]: "target_options (log e w) = target_options w"
  by (simp add: log_def)

lemma target_device_log [simp]: "target_device (log e w) = target_device w"
  by (simp add: log_def)

lemma trace_dap_write_word [simp]:
  "trace (dap_write_word T a v w) = trace w @ [WriteWord a v]"
  by (simp add: dap_write_word_def)

lemma dev_dap_write_word [simp]: "dev (dap_write_word T a v w) = write_word T a v (dev w)"
  by (simp add: dap_write_word_def)

lemma target_options_dap_write_word [simp]:
  "target_options (dap_write_word T a v w) = target_options w"
  by (simp add: dap_write_word_def)

lemma target_device_dap_write_word [simp]:
  "target_device (dap_write_word T a v w) = target_device w"
  by (simp add: dap_write_word_def)

lemma fst_dap_read_word [simp]: "fst (dap_read_word T a w) = fst (read_word T a (dev w))"
  by (simp add: dap_read_word_def split: prod.splits)

lemma trace_dap_read_word [simp]:
  "trace (snd (dap_read_word T a w)) = trace w @ [ReadWord a (fst (read_word T a (dev w)))]"
  by (simp add: dap_read_word_def split: prod.splits)

lemma dev_dap_read_word [simp]:
  "dev (snd (dap_read_word T a w)) = snd (read_word T a (dev w))"
  by (simp add: dap_read_word_def split: prod.splits)

lemma target_options_dap_read_word [simp]:
  "target_options (snd (dap_read_word T a w)) = target_options w"
  by (simp add: dap_read_word_def split: prod.splits)

lemma target_device_dap_read_word [simp]:
  "target_device (snd (dap_read_word T a w)) = target_device w"
  by (simp add: dap_read_word_def split: prod.splits)

lemma trace_dap_write_block [simp]:
  "trace (dap_write_block T a bs w) = trace w @ [WriteBlock a bs]"
  by (simp add: dap_write_block_def)

lemma dev_dap_write_block [simp]: "dev (dap_write_block T a bs w) = write_block T a bs (dev w)"
  by (simp add: dap_write_block_def)

lemma target_options_dap_write_block [simp]:
  "target_options (dap_write_block T a bs w) = target_options w"
  by (simp add: dap_write_block_def)

lemma target_device_dap_write_block [simp]:
  "target_device (dap_write_block T a bs w) = target_device w"
  by (simp add: dap_write_block_def)

lemma fst_dap_read_block [simp]:
  "fst (dap_read_block T a n w) = map (fst (read_block T a n (dev w))) [0..<n]"
  by (simp add: dap_read_block_def split: prod.splits)

lemma trace_dap_read_block [simp]:
  "trace (snd (dap_read_block T a n w)) = trace w @ [ReadBlock a n]"
  by (simp add: dap_read_block_def split: prod.splits)

lemma dev_dap_read_block [simp]:
  "dev (snd (dap_read_block T a n w)) = snd (read_block T a n (dev w))"
  by (simp add: dap_read_block_def split: prod.splits)

lemma target_options_dap_read_block [simp]:
  "target_options (snd (dap_read_block T a n w)) = target_options w"
  by (simp add: dap_read_block_def split: prod.splits)

lemma target_device_dap_read_block [simp]:
  "target_device (snd (dap_read_block T a n w)) = target_device w"
  by (simp add: dap_read_block_def split: prod.splits)

lemma trace_stop_core:
  "trace (stop_core T w) =
    trace w @ [WriteWord DHCSR 0xa05f0003, WriteWord DEMCR 1, WriteWord AIRCR 0x05fa0004]"
  by (simp add: stop_core_def)

lemma session_stop_core [simp]:
  "target_device (stop_core T w) = target_device w"
  "target_options (stop_core T w) = target_options w"
  by (simp_all add: stop_core_def)

subsection \<open>Selection\<close>

text \<open>The loop over the table finds the first entry before the sentinel with the given id.\<close>

lemma find_device_devices:
  "find_device devices i = List.find (\<lambda>d. dsu_did d = i) (butlast devices)"
  by (simp add: devices_def)

lemma target_select_found:
  assumes "find_device devices (identification T w AND DEVICE_ID_MASK) = Some d"
  shows "\<exists>w'. (case check_options T options (flash_size d) FLASH_ROW_SIZE USER_ROW_SIZE of
                  Some checked \<Rightarrow>
                    target_select T options w = Some (Inr w') \<and> target_options w' = checked
                | None \<Rightarrow>
                    target_select T options w = Some (Inl (OptionsRejected, w')) \<and>
                    target_options w' = options) \<and>
               target_device w' = d \<and>
               trace w' = trace (stop_core T w) @
                 [ReadWord DSU_DID (identification T w),
                  VerboseTarget (name d)
                    (of_char CHR ''A'' +
                      (drop_bit DEVICE_REV_SHIFT (identification T w) AND DEVICE_REV_MASK))]"
proof -
  obtain v w1 where r: "dap_read_word T DSU_DID (stop_core T w) = (v, w1)"
    by (cases "dap_read_word T DSU_DID (stop_core T w)")
  have v: "v = identification T w"
    using fst_dap_read_word [of T DSU_DID "stop_core T w"] r by (simp add: identification_def)
  have w1: "w1 = snd (dap_read_word T DSU_DID (stop_core T w))"
    using r by simp
  have tr: "trace w1 = trace (stop_core T w) @ [ReadWord DSU_DID v]"
    unfolding w1 v by (simp add: identification_def)
  show ?thesis
    using assms r tr
    by (cases "check_options T options (flash_size d) FLASH_ROW_SIZE USER_ROW_SIZE")
      (simp_all add: target_select_def v [symmetric] Let_def)
qed

lemma target_select_unknown:
  assumes "find_device devices (identification T w AND DEVICE_ID_MASK) = None"
  shows "\<exists>w'. target_select T options w =
                 Some (Inl (UnknownTargetDevice (identification T w), w')) \<and>
               target_device w' = target_device w \<and> target_options w' = target_options w"
proof -
  obtain v w1 where r: "dap_read_word T DSU_DID (stop_core T w) = (v, w1)"
    by (cases "dap_read_word T DSU_DID (stop_core T w)")
  have v: "v = identification T w"
    using fst_dap_read_word [of T DSU_DID "stop_core T w"] r by (simp add: identification_def)
  have w1: "w1 = snd (dap_read_word T DSU_DID (stop_core T w))"
    using r by simp
  have "target_device w1 = target_device w" "target_options w1 = target_options w"
    unfolding w1 by simp_all
  then show ?thesis
    using assms r by (simp add: target_select_def v [symmetric] Let_def)
qed

lemma chip_identification [simp]: "identification chip_transport (world0 (chip0 v l) d opts) = v"
  by (simp add: identification_def chip_transport_def stop_core_def world0_def chip0_def
      register_defs)

text \<open>
  C3. For every identification value: when its masked form is the id of an entry of the
  table (the entries before the sentinel), \<^verbatim>\<open>target_select\<close> takes the first such entry
  and stores it and the options in the session; when no entry has it, \<^verbatim>\<open>target_select\<close>
  exits with the unknown-device error that carries the unmasked value, and the stored
  device and options are the ones from before.
\<close>

theorem select_lookup:
  "case List.find (\<lambda>d. dsu_did d = identification T w AND DEVICE_ID_MASK) (butlast devices) of
     Some d \<Rightarrow>
       \<exists>w'. target_device w' = d \<and>
         (case check_options T options (flash_size d) FLASH_ROW_SIZE USER_ROW_SIZE of
            Some checked \<Rightarrow>
              target_select T options w = Some (Inr w') \<and> target_options w' = checked
          | None \<Rightarrow>
              target_select T options w = Some (Inl (OptionsRejected, w')) \<and>
              target_options w' = options)
   | None \<Rightarrow>
       \<exists>w'. target_select T options w =
               Some (Inl (UnknownTargetDevice (identification T w), w')) \<and>
             target_device w' = target_device w \<and> target_options w' = target_options w"
proof (cases "find_device devices (identification T w AND DEVICE_ID_MASK)")
  case None
  then show ?thesis
    using target_select_unknown [of T w options]
    by (simp add: find_device_devices [symmetric])
next
  case (Some d)
  then show ?thesis
    using target_select_found [of T w d options]
    by (auto simp add: find_device_devices [symmetric])
qed

text \<open>
  C2, as the claim states it, fails: \<open>0x61841003 AND 0xfffff0ff\<close> is \<open>0x61841003\<close>, which
  is the id of no entry, and \<^verbatim>\<open>target_select\<close> exits with the unknown-device error.
\<close>

theorem select_example_counterexample:
  "(0x61841003 :: u32) AND DEVICE_ID_MASK = 0x61841003 \<and>
   verdict (target_select chip_transport (options0 [] 0)
              (world0 (chip0 0x61841003 False) (devices ! 2) (options0 [] 0)))
     = Some (Inl (UnknownTargetDevice 0x61841003))"
proof -
  have "find_device devices
          (identification chip_transport
             (world0 (chip0 0x61841003 False) (devices ! 2) (options0 [] 0)) AND DEVICE_ID_MASK)
        = None"
    by (simp add: devices_def device_id_defs)
  then show ?thesis
    using target_select_unknown [of chip_transport
        "world0 (chip0 0x61841003 False) (devices ! 2) (options0 [] 0)" "options0 [] 0"]
    by (auto simp add: verdict_def device_id_defs)
qed

text \<open>
  C2, amended. When the masked identification value is \<open>0x61840000\<close> and the option check
  accepts the options, \<^verbatim>\<open>target_select\<close> returns with the entry of the SAM E54P20A in the
  session, and the last thing it reports is that name with the letter
  \<open>'A' + ((v >> 8) & 0xf)\<close>.
\<close>

theorem select_revision_letter:
  assumes "identification T w AND DEVICE_ID_MASK = 0x61840000"
    and "check_options T options 1048576 FLASH_ROW_SIZE USER_ROW_SIZE = Some checked"
  shows "\<exists>w'. target_select T options w = Some (Inr w') \<and>
               target_device w' =
                 \<lparr>dsu_did = 0x61840000, name = Some ''SAM E54P20A'', flash_size = 1048576\<rparr> \<and>
               last (trace w') =
                 VerboseTarget (Some ''SAM E54P20A'')
                   (of_char CHR ''A'' + (drop_bit 8 (identification T w) AND 0xf))"
proof -
  let ?d = "\<lparr>dsu_did = 0x61840000, name = Some ''SAM E54P20A'', flash_size = 1048576\<rparr>"
  have "find_device devices (identification T w AND DEVICE_ID_MASK) = Some ?d"
    using assms(1) by (simp add: devices_def)
  then show ?thesis
    using target_select_found [of T w ?d options] assms(2)
    by (auto simp add: device_id_defs)
qed

theorem select_revision_letter_witness:
  "identification chip_transport
      (world0 (chip0 0x61840100 False) (devices ! 2) (options0 [] 0)) AND DEVICE_ID_MASK
     = 0x61840000 \<and>
   check_options chip_transport (options0 [] 0) 1048576 FLASH_ROW_SIZE USER_ROW_SIZE
     = Some (options0 [] 0) \<and>
   (\<exists>w'. target_select chip_transport (options0 [] 0)
            (world0 (chip0 0x61840100 False) (devices ! 2) (options0 [] 0)) = Some (Inr w') \<and>
          target_device w' =
            \<lparr>dsu_did = 0x61840000, name = Some ''SAM E54P20A'', flash_size = 1048576\<rparr> \<and>
          last (trace w') = VerboseTarget (Some ''SAM E54P20A'') (of_char CHR ''B''))"
proof -
  have a: "identification chip_transport
      (world0 (chip0 0x61840100 False) (devices ! 2) (options0 [] 0)) AND DEVICE_ID_MASK
     = 0x61840000"
    by (simp add: device_id_defs)
  have b: "check_options chip_transport (options0 [] 0) 1048576 FLASH_ROW_SIZE USER_ROW_SIZE
     = Some (options0 [] 0)"
    by (simp add: chip_transport_def)
  show ?thesis
    using a b select_revision_letter [OF a b] by simp
qed

subsection \<open>Locking\<close>

text \<open>
  C8. \<^verbatim>\<open>target_lock\<close> returns after one write and nothing else: the value \<open>0xa516\<close>
  written to the address \<open>0x41004000\<close>. That address is \<^verbatim>\<open>NVMCTRL_CTRLA\<close>, not the
  register \<^verbatim>\<open>NVMCTRL_CTRLB\<close> at \<open>0x41004004\<close> that takes the commands.
\<close>

theorem target_lock_writes_ctrla:
  "\<exists>w'. target_lock T w = Some (Inr w') \<and>
         trace w' = trace w @ [WriteWord 0x41004000 0xa516] \<and>
         commands (trace w') = commands (trace w) \<and>
         NVMCTRL_CTRLB = 0x41004004"
  by (simp add: target_lock_def commands_def map_filter_def NVMCTRL_CTRLA_def NVMCTRL_CTRLB_def
      NVMCTRL_CMD_SSB_def)

subsection \<open>Polling\<close>

lemma poll_keeps:
  assumes run: "poll T a m w = Some w'"
    and st: "\<And>x. P x \<Longrightarrow> P (snd (dap_read_word T a x))" and "P w"
  shows "P w'"
proof -
  have "(\<forall>x. P x \<longrightarrow> P (snd (dap_read_word T a x))) \<longrightarrow> P w \<longrightarrow> P w'"
  proof (rule poll.raw_induct
      [where P = "\<lambda>T a m w w'. (\<forall>x. P x \<longrightarrow> P (snd (dap_read_word T a x))) \<longrightarrow> P w \<longrightarrow> P w'",
        OF _ run])
    fix f :: "'a transport \<Rightarrow> u32 \<Rightarrow> u32 \<Rightarrow> 'a world \<Rightarrow> 'a world option"
      and T a m w w'
    assume ih: "\<And>T a m w y. f T a m w = Some y \<Longrightarrow>
        (\<forall>x. P x \<longrightarrow> P (snd (dap_read_word T a x))) \<longrightarrow> P w \<longrightarrow> P y"
      and step: "(case dap_read_word T a w of
          (v, w') \<Rightarrow> if 0 = v AND m then f T a m w' else Some w') = Some w'"
    obtain v w1 where r: "dap_read_word T a w = (v, w1)"
      by (cases "dap_read_word T a w")
    then have w1: "w1 = snd (dap_read_word T a w)"
      by simp
    show "(\<forall>x. P x \<longrightarrow> P (snd (dap_read_word T a x))) \<longrightarrow> P w \<longrightarrow> P w'"
    proof (intro impI)
      assume st: "\<forall>x. P x \<longrightarrow> P (snd (dap_read_word T a x))" and p: "P w"
      have p1: "P w1"
        using st p w1 by simp
      show "P w'"
      proof (cases "0 = v AND m")
        case True
        then have "f T a m w1 = Some w'"
          using step r by simp
        then show ?thesis
          using ih st p1 by blast
      next
        case False
        then have "w' = w1"
          using step r by simp
        then show ?thesis
          using p1 by simp
      qed
    qed
  qed
  then show ?thesis using assms by blast
qed

lemma wait_ready_keeps:
  assumes "wait_ready T w = Some w'" and "stable T P" and "P w"
  shows "P w'"
  using assms(1) unfolding wait_ready_def
  by (rule poll_keeps) (use assms(2,3) in \<open>auto simp: stable_def\<close>)

lemma writes_append [simp]: "writes (xs @ ys) = writes xs @ writes ys"
  by (simp add: writes_def)

lemma writes_simps [simp]:
  "writes [] = []"
  "writes (WriteWord a v # tr) = WriteWord a v # writes tr"
  "writes (WriteBlock a bs # tr) = WriteBlock a bs # writes tr"
  "writes (ReadWord a v # tr) = writes tr"
  "writes (ReadBlock a n # tr) = writes tr"
  "writes (VerboseDot # tr) = writes tr"
  by (simp_all add: writes_def)

lemma poll_quiet:
  assumes "poll T a m w = Some w'"
  shows "writes (trace w') = writes (trace w) \<and> target_options w' = target_options w
     \<and> target_device w' = target_device w"
  using assms
  by (rule poll_keeps [where P = "\<lambda>x. writes (trace x) = writes (trace w) \<and> target_options x = target_options w
     \<and> target_device x = target_device w"]) simp_all

lemma stableD:
  assumes "stable T P" and "P w"
  shows "P (dap_write_word T a v w)" and "P (snd (dap_read_word T a w))"
    and "P (dap_write_block T a bs w)" and "P (snd (dap_read_block T a n w))"
    and "P (log VerboseDot w)"
  using assms by (simp_all add: stable_def)

lemma wait_ready_run:
  assumes "responsive T" and "stable T P"
  shows "\<exists>w'. wait_ready T w = Some w' \<and> writes (trace w') = writes (trace w) \<and>
    target_options w' = target_options w \<and> target_device w' = target_device w \<and>
    (P w \<longrightarrow> P w')"
proof -
  obtain w' where run: "wait_ready T w = Some w'"
    using assms(1) by (auto simp: responsive_def)
  moreover from this have "writes (trace w') = writes (trace w) \<and> target_options w' = target_options w
     \<and> target_device w' = target_device w"
    unfolding wait_ready_def by (rule poll_quiet)
  moreover have "P w \<longrightarrow> P w'"
    using wait_ready_keeps [OF run assms(2)] by blast
  ultimately show ?thesis
    by blast
qed

subsection \<open>Programming\<close>

declare program_pages.simps [simp del] program_rows.simps [simp del]

lemma pages_in_erase_block: "PAGES_IN_ERASE_BLOCK = 16"
  by (simp add: geometry_defs)

lemma unat_of_nat_u32: "n < 2 ^ 32 \<Longrightarrow> unat (word_of_nat n :: u32) = n"
  by (simp add: unat_of_nat)

lemma page_offset_next:
  "(word_of_nat (512 * p) :: u32) + FLASH_PAGE_SIZE = word_of_nat (512 * (p + 1))"
  "(base :: u32) + word_of_nat (512 * p) + FLASH_PAGE_SIZE = base + word_of_nat (512 * (p + 1))"
  by (simp_all add: FLASH_PAGE_SIZE_def)

lemma program_pages_done:
  "\<not> page < 16 \<Longrightarrow> program_pages T buf page (addr, offs, w) = Some (Inr (addr, offs, w))"
  by (simp add: program_pages.simps pages_in_erase_block)

lemma program_pages_overrun:
  assumes "page < 16"
    and "wait_ready T (dap_write_word T NVMCTRL_CTRLB NVMCTRL_CMD_PBC
           (dap_write_word T NVMCTRL_ADDR addr w)) = Some w1"
    and "slice buf (unat offs) 512 = None"
  shows "program_pages T buf page (addr, offs, w) = Some (Inl (BufferOverrun (unat offs) 512, w1))"
  using assms by (simp add: program_pages.simps [of T buf page] pages_in_erase_block FLASH_PAGE_SIZE_def)

lemma program_pages_next:
  assumes "page < 16"
    and "wait_ready T (dap_write_word T NVMCTRL_CTRLB NVMCTRL_CMD_PBC
           (dap_write_word T NVMCTRL_ADDR addr w)) = Some w1"
    and "slice buf (unat offs) 512 = Some bytes"
    and "wait_ready T (dap_write_word T NVMCTRL_CTRLB NVMCTRL_CMD_WP
           (dap_write_block T addr bytes w1)) = Some w2"
  shows "program_pages T buf page (addr, offs, w) =
    program_pages T buf (page + 1) (addr + FLASH_PAGE_SIZE, offs + FLASH_PAGE_SIZE, w2)"
  using assms by (simp add: program_pages.simps [of T buf page] pages_in_erase_block FLASH_PAGE_SIZE_def)

lemma program_pages_run:
  assumes resp: "responsive T" and st: "stable T P"
  shows "k \<le> 16 \<Longrightarrow> p \<le> length buf div 512 \<Longrightarrow> 512 * (p + k) \<le> 2 ^ 32 \<Longrightarrow>
    \<exists>w'. (if p + k \<le> length buf div 512 then
            program_pages T buf (16 - int k) (base + of_nat (512 * p), of_nat (512 * p), w) =
              Some (Inr (base + of_nat (512 * (p + k)), of_nat (512 * (p + k)), w')) \<and>
            writes (trace w') =
              writes (trace w) @ concat (map (page_writes base buf) [p..<p + k]) \<and>
            target_options w' = target_options w \<and> target_device w' = target_device w \<and>
            (P w \<longrightarrow> P w')
          else
            program_pages T buf (16 - int k) (base + of_nat (512 * p), of_nat (512 * p), w) =
              Some (Inl (BufferOverrun (512 * (length buf div 512)) 512, w')))"
proof (induction k arbitrary: p w)
  case 0
  then show ?case
    by (simp add: program_pages_done)
next
  case (Suc k)
  define page where "page = 16 - int (Suc k)"
  define offs :: u32 where "offs = word_of_nat (512 * p)"
  define addr :: u32 where "addr = base + offs"
  define q where "q = p + Suc k"
  define offs' :: u32 where "offs' = word_of_nat (512 * (p + 1))"
  define addr' :: u32 where "addr' = base + offs'"
  have page: "page < 16" and page': "page + 1 = 16 - int k"
    by (simp_all add: page_def)
  have "512 * p < (2::nat) ^ 32"
    using Suc.prems(3) by simp
  then have offs: "unat offs = 512 * p"
    unfolding offs_def by (rule unat_of_nat_u32)
  have next_offs: "offs + FLASH_PAGE_SIZE = offs'" "addr + FLASH_PAGE_SIZE = addr'"
    unfolding addr_def addr'_def offs_def offs'_def by (simp_all only: page_offset_next)
  have pre1: "P w \<longrightarrow> P (dap_write_word T NVMCTRL_CTRLB NVMCTRL_CMD_PBC
           (dap_write_word T NVMCTRL_ADDR addr w))"
    using stableD(1) [OF st] by blast
  obtain w1 where w1: "wait_ready T (dap_write_word T NVMCTRL_CTRLB NVMCTRL_CMD_PBC
           (dap_write_word T NVMCTRL_ADDR addr w)) = Some w1"
    and tr1: "writes (trace w1) =
      writes (trace w) @ [WriteWord NVMCTRL_ADDR addr, WriteWord NVMCTRL_CTRLB NVMCTRL_CMD_PBC]"
    and o1: "target_options w1 = target_options w" "target_device w1 = target_device w"
    and p1: "P w \<longrightarrow> P w1"
    using wait_ready_run [OF resp st, of "dap_write_word T NVMCTRL_CTRLB NVMCTRL_CMD_PBC
           (dap_write_word T NVMCTRL_ADDR addr w)"] pre1 by auto
  show ?case
    unfolding offs_def [symmetric] addr_def [symmetric] page_def [symmetric] q_def [symmetric]
  proof (cases "p < length buf div 512")
    case False
    then have fit: "p = length buf div 512"
      using Suc.prems(2) by simp
    then have "\<not> 512 * p + 512 \<le> length buf"
      by simp
    then have "slice buf (unat offs) 512 = None"
      by (simp add: slice_def offs)
    then have "program_pages T buf page (addr, offs, w) =
        Some (Inl (BufferOverrun (512 * p) 512, w1))"
      using program_pages_overrun [OF page w1] by (simp add: offs)
    moreover have "\<not> q \<le> length buf div 512"
      using fit by (simp add: q_def)
    ultimately show "\<exists>w'. (if q \<le> length buf div 512 then
            program_pages T buf page (addr, offs, w) =
              Some (Inr (base + of_nat (512 * q), of_nat (512 * q), w')) \<and>
            writes (trace w') = writes (trace w) @ concat (map (page_writes base buf) [p..<q]) \<and>
            target_options w' = target_options w \<and> target_device w' = target_device w \<and>
            (P w \<longrightarrow> P w')
          else
            program_pages T buf page (addr, offs, w) =
              Some (Inl (BufferOverrun (512 * (length buf div 512)) 512, w')))"
      using fit by simp
  next
    case True
    then have "512 * p + 512 \<le> length buf"
      by simp
    then have sl: "slice buf (unat offs) 512 = Some (take 512 (drop (512 * p) buf))"
      by (simp add: slice_def offs)
    have pre2: "P w \<longrightarrow> P (dap_write_word T NVMCTRL_CTRLB NVMCTRL_CMD_WP
           (dap_write_block T addr (take 512 (drop (512 * p) buf)) w1))"
      using stableD(1,3) [OF st] p1 by blast
    obtain w2 where w2: "wait_ready T (dap_write_word T NVMCTRL_CTRLB NVMCTRL_CMD_WP
           (dap_write_block T addr (take 512 (drop (512 * p) buf)) w1)) = Some w2"
      and tr2: "writes (trace w2) = writes (trace w) @ page_writes base buf p"
      and o2: "target_options w2 = target_options w" "target_device w2 = target_device w"
      and p2: "P w \<longrightarrow> P w2"
      using wait_ready_run [OF resp st, of "dap_write_word T NVMCTRL_CTRLB NVMCTRL_CMD_WP
           (dap_write_block T addr (take 512 (drop (512 * p) buf)) w1)"]
        pre2
      by (auto simp add: tr1 o1 page_writes_def addr_def offs_def)
    have step: "program_pages T buf page (addr, offs, w) =
        program_pages T buf (16 - int k) (addr', offs', w2)"
      using program_pages_next [OF page w1 sl w2] by (simp only: next_offs page')
    have q: "p + 1 + k = q"
      by (simp add: q_def)
    have "\<exists>w'. (if (p + 1) + k \<le> length buf div 512 then
            program_pages T buf (16 - int k)
                (base + of_nat (512 * (p + 1)), of_nat (512 * (p + 1)), w2) =
              Some (Inr (base + of_nat (512 * ((p + 1) + k)), of_nat (512 * ((p + 1) + k)), w')) \<and>
            writes (trace w') =
              writes (trace w2) @ concat (map (page_writes base buf) [p + 1..<(p + 1) + k]) \<and>
            target_options w' = target_options w2 \<and> target_device w' = target_device w2 \<and>
            (P w2 \<longrightarrow> P w')
          else
            program_pages T buf (16 - int k)
                (base + of_nat (512 * (p + 1)), of_nat (512 * (p + 1)), w2) =
              Some (Inl (BufferOverrun (512 * (length buf div 512)) 512, w')))"
      using Suc.prems True by (intro Suc.IH) simp_all
    then obtain w' where ih: "if q \<le> length buf div 512 then
            program_pages T buf (16 - int k) (addr', offs', w2) =
              Some (Inr (base + of_nat (512 * q), of_nat (512 * q), w')) \<and>
            writes (trace w') =
              writes (trace w2) @ concat (map (page_writes base buf) [p + 1..<q]) \<and>
            target_options w' = target_options w2 \<and> target_device w' = target_device w2 \<and>
            (P w2 \<longrightarrow> P w')
          else
            program_pages T buf (16 - int k) (addr', offs', w2) =
              Some (Inl (BufferOverrun (512 * (length buf div 512)) 512, w'))"
      unfolding q addr'_def offs'_def by blast
    have upt: "[p..<q] = p # [p + 1..<q]"
      by (simp add: q_def upt_conv_Cons)
    show "\<exists>w'. (if q \<le> length buf div 512 then
            program_pages T buf page (addr, offs, w) =
              Some (Inr (base + of_nat (512 * q), of_nat (512 * q), w')) \<and>
            writes (trace w') = writes (trace w) @ concat (map (page_writes base buf) [p..<q]) \<and>
            target_options w' = target_options w \<and> target_device w' = target_device w \<and>
            (P w \<longrightarrow> P w')
          else
            program_pages T buf page (addr, offs, w) =
              Some (Inl (BufferOverrun (512 * (length buf div 512)) 512, w')))"
    proof (cases "q \<le> length buf div 512")
      case True
      with ih p2 show ?thesis
        by (intro exI [of _ w'])
          (simp only: step upt tr2 o2 if_True list.map concat.simps append_assoc simp_thms,
            blast)
    next
      case False
      with ih show ?thesis
        by (intro exI [of _ w']) (simp only: step if_False)
    qed
  qed
qed

lemma program_rows_done:
  "\<not> row < n \<Longrightarrow> program_rows T buf n row (addr, offs, w) = Some (Inr w)"
  by (simp add: program_rows.simps)

lemma program_rows_overrun:
  assumes "row < n"
    and "wait_ready T (dap_write_word T NVMCTRL_CTRLB NVMCTRL_CMD_UR
           (dap_write_word T NVMCTRL_ADDR addr w)) = Some w1"
    and "wait_ready T (dap_write_word T NVMCTRL_CTRLB NVMCTRL_CMD_EB w1) = Some w2"
    and "program_pages T buf 0 (addr, offs, w2) = Some (Inl e)"
  shows "program_rows T buf n row (addr, offs, w) = Some (Inl e)"
  using assms by (simp add: program_rows.simps [of T buf n row])

lemma program_rows_next:
  assumes "row < n"
    and "wait_ready T (dap_write_word T NVMCTRL_CTRLB NVMCTRL_CMD_UR
           (dap_write_word T NVMCTRL_ADDR addr w)) = Some w1"
    and "wait_ready T (dap_write_word T NVMCTRL_CTRLB NVMCTRL_CMD_EB w1) = Some w2"
    and "program_pages T buf 0 (addr, offs, w2) = Some (Inr (addr', offs', w3))"
  shows "program_rows T buf n row (addr, offs, w) =
    program_rows T buf n (row + 1) (addr', offs', log VerboseDot w3)"
  using assms by (simp add: program_rows.simps [of T buf n row])

lemma row_offset:
  "word_of_nat (512 * (16 * r + 16)) = (word_of_nat (8192 * (r + 1)) :: u32)"
  "word_of_nat (512 * (16 * r)) = (word_of_nat (8192 * r) :: u32)"
  "(word_of_nat r :: u32) + 1 = word_of_nat (r + 1)"
  by simp_all

lemma program_rows_run:
  assumes resp: "responsive T" and st: "stable T P" and R: "8192 * R \<le> 2 ^ 32"
  shows "k \<le> R \<Longrightarrow> 16 * (R - k) \<le> length buf div 512 \<Longrightarrow>
    \<exists>w'. (if 16 * R \<le> length buf div 512 then
            program_rows T buf (of_nat R) (of_nat (R - k))
                (base + of_nat (8192 * (R - k)), of_nat (8192 * (R - k)), w) = Some (Inr w') \<and>
            writes (trace w') =
              writes (trace w) @ concat (map (row_writes base buf) [R - k..<R]) \<and>
            target_options w' = target_options w \<and> target_device w' = target_device w \<and>
            (P w \<longrightarrow> P w')
          else
            program_rows T buf (of_nat R) (of_nat (R - k))
                (base + of_nat (8192 * (R - k)), of_nat (8192 * (R - k)), w) =
              Some (Inl (BufferOverrun (512 * (length buf div 512)) 512, w')))"
proof (induction k arbitrary: w)
  case 0
  then show ?case
    by (simp add: program_rows_done)
next
  case (Suc k)
  define r where "r = R - Suc k"
  define n :: u32 where "n = word_of_nat R"
  define row :: u32 where "row = word_of_nat r"
  define offs :: u32 where "offs = word_of_nat (8192 * r)"
  define addr :: u32 where "addr = base + offs"
  define offs' :: u32 where "offs' = word_of_nat (8192 * (r + 1))"
  define addr' :: u32 where "addr' = base + offs'"
  define fit where "fit = length buf div 512"
  have r: "r < R" "R - k = r + 1" "16 * r \<le> fit"
    using Suc.prems by (simp_all add: r_def fit_def)
  have "R < 2 ^ 32"
    using R by simp
  then have "unat n = R" "unat row = r"
    using r(1) unfolding n_def row_def by (simp_all add: unat_of_nat_u32)
  then have row: "row < n"
    using r(1) by (simp add: word_less_nat_alt)
  have row': "row + 1 = word_of_nat (R - k)"
    unfolding row_def r(2) by (simp only: row_offset)
  have pre1: "P w \<longrightarrow> P (dap_write_word T NVMCTRL_CTRLB NVMCTRL_CMD_UR
           (dap_write_word T NVMCTRL_ADDR addr w))"
    using stableD(1) [OF st] by blast
  obtain w1 where w1: "wait_ready T (dap_write_word T NVMCTRL_CTRLB NVMCTRL_CMD_UR
           (dap_write_word T NVMCTRL_ADDR addr w)) = Some w1"
    and tr1: "writes (trace w1) =
      writes (trace w) @ [WriteWord NVMCTRL_ADDR addr, WriteWord NVMCTRL_CTRLB NVMCTRL_CMD_UR]"
    and o1: "target_options w1 = target_options w" "target_device w1 = target_device w"
    and p1: "P w \<longrightarrow> P w1"
    using wait_ready_run [OF resp st, of "dap_write_word T NVMCTRL_CTRLB NVMCTRL_CMD_UR
           (dap_write_word T NVMCTRL_ADDR addr w)"] pre1 by auto
  have pre2: "P w \<longrightarrow> P (dap_write_word T NVMCTRL_CTRLB NVMCTRL_CMD_EB w1)"
    using stableD(1) [OF st] p1 by blast
  obtain w2 where w2: "wait_ready T (dap_write_word T NVMCTRL_CTRLB NVMCTRL_CMD_EB w1) = Some w2"
    and tr2: "writes (trace w2) =
      writes (trace w) @ [WriteWord NVMCTRL_ADDR addr, WriteWord NVMCTRL_CTRLB NVMCTRL_CMD_UR,
        WriteWord NVMCTRL_CTRLB NVMCTRL_CMD_EB]"
    and o2: "target_options w2 = target_options w" "target_device w2 = target_device w"
    and p2: "P w \<longrightarrow> P w2"
    using wait_ready_run [OF resp st, of "dap_write_word T NVMCTRL_CTRLB NVMCTRL_CMD_EB w1"]
      pre2
    by (auto simp add: tr1 o1)
  have sixteen: "16 - int 16 = 0"
    by simp
  have "512 * (16 * r + 16) \<le> (2::nat) ^ 32"
    using R r(1) by simp
  then have "\<exists>w'. (if 16 * r + 16 \<le> length buf div 512 then
            program_pages T buf (16 - int 16)
                (base + of_nat (512 * (16 * r)), of_nat (512 * (16 * r)), w2) =
              Some (Inr (base + of_nat (512 * (16 * r + 16)), of_nat (512 * (16 * r + 16)), w')) \<and>
            writes (trace w') =
              writes (trace w2) @ concat (map (page_writes base buf) [16 * r..<16 * r + 16]) \<and>
            target_options w' = target_options w2 \<and> target_device w' = target_device w2 \<and>
            (P w2 \<longrightarrow> P w')
          else
            program_pages T buf (16 - int 16)
                (base + of_nat (512 * (16 * r)), of_nat (512 * (16 * r)), w2) =
              Some (Inl (BufferOverrun (512 * (length buf div 512)) 512, w')))"
    using r(3) by (intro program_pages_run [OF resp st]) (simp_all add: fit_def)
  then obtain w3 where raw: "if 16 * r + 16 \<le> fit then
            program_pages T buf 0 (addr, offs, w2) = Some (Inr (addr', offs', w3)) \<and>
            writes (trace w3) = writes (trace w) @ row_writes base buf r \<and>
            target_options w3 = target_options w \<and> target_device w3 = target_device w \<and>
            (P w2 \<longrightarrow> P w3)
          else
            program_pages T buf 0 (addr, offs, w2) =
              Some (Inl (BufferOverrun (512 * fit) 512, w3))"
    unfolding row_offset addr_def addr'_def offs_def offs'_def fit_def tr2 o2 row_writes_def
      append_assoc sixteen
    by blast
  have pages: "if 16 * r + 16 \<le> fit then
            program_pages T buf 0 (addr, offs, w2) = Some (Inr (addr', offs', w3)) \<and>
            writes (trace w3) = writes (trace w) @ row_writes base buf r \<and>
            target_options w3 = target_options w \<and> target_device w3 = target_device w \<and>
            (P w \<longrightarrow> P w3)
          else
            program_pages T buf 0 (addr, offs, w2) =
              Some (Inl (BufferOverrun (512 * fit) 512, w3))"
  proof (cases "16 * r + 16 \<le> fit")
    case True
    with raw p2 show ?thesis
      by simp
  next
    case False
    with raw show ?thesis
      by simp
  qed
  show ?case
    unfolding r_def [symmetric] n_def [symmetric] row_def [symmetric] offs_def [symmetric]
      addr_def [symmetric] fit_def [symmetric]
  proof (cases "16 * r + 16 \<le> fit")
    case False
    then have "program_rows T buf n row (addr, offs, w) =
        Some (Inl (BufferOverrun (512 * fit) 512, w3))"
      using pages program_rows_overrun [OF row w1 w2] by simp
    moreover have "\<not> 16 * R \<le> fit"
      using False r(1) by simp
    ultimately show "\<exists>w'. (if 16 * R \<le> fit then
            program_rows T buf n row (addr, offs, w) = Some (Inr w') \<and>
            writes (trace w') = writes (trace w) @ concat (map (row_writes base buf) [r..<R]) \<and>
            target_options w' = target_options w \<and> target_device w' = target_device w \<and>
            (P w \<longrightarrow> P w')
          else
            program_rows T buf n row (addr, offs, w) =
              Some (Inl (BufferOverrun (512 * fit) 512, w')))"
      by simp
  next
    case True
    then have ok: "program_pages T buf 0 (addr, offs, w2) = Some (Inr (addr', offs', w3))"
      and tr3: "writes (trace (log VerboseDot w3)) = writes (trace w) @ row_writes base buf r"
      and o3: "target_options (log VerboseDot w3) = target_options w"
        "target_device (log VerboseDot w3) = target_device w"
      and p3: "P w \<longrightarrow> P (log VerboseDot w3)"
      using pages stableD(5) [OF st] by simp_all
    have step: "program_rows T buf n row (addr, offs, w) =
        program_rows T buf n (word_of_nat (R - k)) (addr', offs', log VerboseDot w3)"
      using program_rows_next [OF row w1 w2 ok] by (simp only: row')
    have "\<exists>w'. (if 16 * R \<le> length buf div 512 then
            program_rows T buf (of_nat R) (of_nat (R - k))
                (base + of_nat (8192 * (R - k)), of_nat (8192 * (R - k)), log VerboseDot w3) =
              Some (Inr w') \<and>
            writes (trace w') =
              writes (trace (log VerboseDot w3)) @ concat (map (row_writes base buf) [R - k..<R]) \<and>
            target_options w' = target_options (log VerboseDot w3) \<and>
            target_device w' = target_device (log VerboseDot w3) \<and>
            (P (log VerboseDot w3) \<longrightarrow> P w')
          else
            program_rows T buf (of_nat R) (of_nat (R - k))
                (base + of_nat (8192 * (R - k)), of_nat (8192 * (R - k)), log VerboseDot w3) =
              Some (Inl (BufferOverrun (512 * (length buf div 512)) 512, w')))"
      using Suc.prems True r by (intro Suc.IH) (simp_all add: fit_def)
    then obtain w' where ih: "if 16 * R \<le> fit then
            program_rows T buf n (of_nat (R - k)) (addr', offs', log VerboseDot w3) = Some (Inr w') \<and>
            writes (trace w') =
              writes (trace (log VerboseDot w3)) @ concat (map (row_writes base buf) [r + 1..<R]) \<and>
            target_options w' = target_options (log VerboseDot w3) \<and>
            target_device w' = target_device (log VerboseDot w3) \<and>
            (P (log VerboseDot w3) \<longrightarrow> P w')
          else
            program_rows T buf n (of_nat (R - k)) (addr', offs', log VerboseDot w3) =
              Some (Inl (BufferOverrun (512 * fit) 512, w'))"
      unfolding addr'_def offs'_def n_def fit_def r(2) by blast
    have upt: "[r..<R] = r # [r + 1..<R]"
      using r(1) by (simp add: upt_conv_Cons)
    show "\<exists>w'. (if 16 * R \<le> fit then
            program_rows T buf n row (addr, offs, w) = Some (Inr w') \<and>
            writes (trace w') = writes (trace w) @ concat (map (row_writes base buf) [r..<R]) \<and>
            target_options w' = target_options w \<and> target_device w' = target_device w \<and>
            (P w \<longrightarrow> P w')
          else
            program_rows T buf n row (addr, offs, w) =
              Some (Inl (BufferOverrun (512 * fit) 512, w')))"
    proof (cases "16 * R \<le> fit")
      case True
      with ih p3 show ?thesis
        by (intro exI [of _ w'])
          (simp only: step upt tr3 o3 if_True list.map concat.simps append_assoc simp_thms,
            blast)
    next
      case False
      with ih show ?thesis
        by (intro exI [of _ w']) (simp only: step if_False)
    qed
  qed
qed

lemma number_of_rows:
  assumes "unat (sz :: u32) + 8191 < 2 ^ 32"
  shows "(sz + FLASH_ROW_SIZE - 1) div FLASH_ROW_SIZE = word_of_nat ((unat sz + 8191) div 8192)"
proof -
  have "unat sz + unat (8191 :: u32) < 2 ^ LENGTH(32)"
    using assms by simp
  then have "unat (sz + 8191) = unat sz + unat (8191 :: u32)"
    by (simp only: unat_add_lem)
  then have "unat ((sz + 8191) div 8192) = (unat sz + 8191) div 8192"
    by (simp add: unat_div)
  moreover have "(unat sz + 8191) div 8192 < 2 ^ 32"
    using assms by simp
  ultimately have "unat ((sz + 8191) div 8192) =
      unat (word_of_nat ((unat sz + 8191) div 8192) :: u32)"
    by (simp only: unat_of_nat_u32)
  then have "(sz + 8191) div 8192 = word_of_nat ((unat sz + 8191) div 8192)"
    by (simp only: word_unat_eq_iff)
  moreover have "sz + FLASH_ROW_SIZE - 1 = sz + 8191"
    by (simp add: FLASH_ROW_SIZE_def)
  ultimately show ?thesis
    by (simp only: FLASH_ROW_SIZE_def)
qed

lemma nvmctrl_configuration:
  "NVMCTRL_CTRLA_AUTOWS OR NVMCTRL_CTRLA_WMODE_MAN OR NVMCTRL_CTRLA_PRM_MANUAL OR
   NVMCTRL_CTRLA_CACHEDIS0 OR NVMCTRL_CTRLA_CACHEDIS1 = 0xc0c4"
  by (simp add: register_defs)

lemma target_program_unlocked:
  assumes "fst (read_word T DSU_CTRL_STATUS (dev w)) AND DSU_STATUSB_PROT = 0"
  shows "target_program T w =
    program_rows T (file_data (target_options w))
      ((file_size (target_options w) + FLASH_ROW_SIZE - 1) div FLASH_ROW_SIZE) 0
      (offset (target_options w), 0,
       dap_write_word T NVMCTRL_CTRLA 0xc0c4 (snd (dap_read_word T DSU_CTRL_STATUS w)))"
proof -
  obtain v w1 where r: "dap_read_word T DSU_CTRL_STATUS w = (v, w1)"
    by (cases "dap_read_word T DSU_CTRL_STATUS w")
  have v: "v = fst (read_word T DSU_CTRL_STATUS (dev w))"
    using fst_dap_read_word [of T DSU_CTRL_STATUS w] r by simp
  show ?thesis
    using assms r
    by (simp add: target_program_def v [symmetric] Let_def nvmctrl_configuration FLASH_ADDR_def)
qed

lemma target_program_run:
  assumes resp: "responsive T" and st: "stable T P"
    and unlocked: "fst (read_word T DSU_CTRL_STATUS (dev w)) AND DSU_STATUSB_PROT = 0"
    and sz: "unat (file_size (target_options w)) + 8191 < 2 ^ 32"
    and R: "R = (unat (file_size (target_options w)) + 8191) div 8192"
  shows "\<exists>w'. (if 16 * R \<le> length (file_data (target_options w)) div 512 then
            target_program T w = Some (Inr w') \<and>
            writes (trace w') =
              writes (trace w) @
                program_writes (offset (target_options w)) (file_data (target_options w)) R \<and>
            target_options w' = target_options w \<and> target_device w' = target_device w \<and>
            (P w \<longrightarrow> P w')
          else
            target_program T w =
              Some (Inl (BufferOverrun (512 * (length (file_data (target_options w)) div 512)) 512,
                         w')))"
proof -
  define w2 where
    "w2 = dap_write_word T NVMCTRL_CTRLA 0xc0c4 (snd (dap_read_word T DSU_CTRL_STATUS w))"
  define buf where "buf = file_data (target_options w)"
  define base where "base = offset (target_options w)"
  have tr2: "writes (trace w2) = writes (trace w) @ [WriteWord NVMCTRL_CTRLA 0xc0c4]"
    and o2: "target_options w2 = target_options w" "target_device w2 = target_device w"
    by (simp_all add: w2_def)
  have p2: "P w \<longrightarrow> P w2"
    unfolding w2_def using stableD(1,2) [OF st] by blast
  have "8192 * R \<le> 2 ^ 32"
    using sz unfolding R by simp
  then have "\<exists>w'. (if 16 * R \<le> length buf div 512 then
            program_rows T buf (of_nat R) (of_nat (R - R))
                (base + of_nat (8192 * (R - R)), of_nat (8192 * (R - R)), w2) = Some (Inr w') \<and>
            writes (trace w') =
              writes (trace w2) @ concat (map (row_writes base buf) [R - R..<R]) \<and>
            target_options w' = target_options w2 \<and> target_device w' = target_device w2 \<and>
            (P w2 \<longrightarrow> P w')
          else
            program_rows T buf (of_nat R) (of_nat (R - R))
                (base + of_nat (8192 * (R - R)), of_nat (8192 * (R - R)), w2) =
              Some (Inl (BufferOverrun (512 * (length buf div 512)) 512, w')))"
    by (intro program_rows_run [OF resp st]) simp_all
  moreover have "R - R = 0" "8192 * (0::nat) = 0" "word_of_nat 0 = (0::u32)" "base + 0 = base"
    by simp_all
  moreover have "writes (trace w) @ program_writes base buf R =
      writes (trace w2) @ concat (map (row_writes base buf) [0..<R])"
    by (simp add: tr2 program_writes_def)
  ultimately obtain w' where rows: "if 16 * R \<le> length buf div 512 then
            program_rows T buf (of_nat R) 0 (base, 0, w2) = Some (Inr w') \<and>
            writes (trace w') = writes (trace w) @ program_writes base buf R \<and>
            target_options w' = target_options w2 \<and> target_device w' = target_device w2 \<and>
            (P w2 \<longrightarrow> P w')
          else
            program_rows T buf (of_nat R) 0 (base, 0, w2) =
              Some (Inl (BufferOverrun (512 * (length buf div 512)) 512, w'))"
    by (simp only:) blast
  have "if 16 * R \<le> length buf div 512 then
            program_rows T buf (of_nat R) 0 (base, 0, w2) = Some (Inr w') \<and>
            writes (trace w') = writes (trace w) @ program_writes base buf R \<and>
            target_options w' = target_options w \<and> target_device w' = target_device w \<and>
            (P w \<longrightarrow> P w')
          else
            program_rows T buf (of_nat R) 0 (base, 0, w2) =
              Some (Inl (BufferOverrun (512 * (length buf div 512)) 512, w'))"
  proof (cases "16 * R \<le> length buf div 512")
    case True
    with rows p2 show ?thesis
      by (simp add: o2)
  next
    case False
    with rows show ?thesis
      by simp
  qed
  then have "\<exists>w'. (if 16 * R \<le> length buf div 512 then
            program_rows T buf (of_nat R) 0 (base, 0, w2) = Some (Inr w') \<and>
            writes (trace w') = writes (trace w) @ program_writes base buf R \<and>
            target_options w' = target_options w \<and> target_device w' = target_device w \<and>
            (P w \<longrightarrow> P w')
          else
            program_rows T buf (of_nat R) 0 (base, 0, w2) =
              Some (Inl (BufferOverrun (512 * (length buf div 512)) 512, w')))"
    by (rule exI)
  then show ?thesis
    unfolding target_program_unlocked [OF unlocked] number_of_rows [OF sz] R [symmetric]
      w2_def [symmetric] buf_def [symmetric] base_def [symmetric] .
qed

lemma block_writes_simps [simp]:
  "block_writes [] = []"
  "block_writes (WriteBlock a bs # tr) = (a, bs) # block_writes tr"
  "block_writes (WriteWord a v # tr) = block_writes tr"
  "block_writes (ReadWord a v # tr) = block_writes tr"
  "block_writes (ReadBlock a n # tr) = block_writes tr"
  "block_writes (VerboseDot # tr) = block_writes tr"
  by (simp_all add: block_writes_def map_filter_simps)

lemma block_writes_append [simp]: "block_writes (xs @ ys) = block_writes xs @ block_writes ys"
  by (simp add: block_writes_def map_filter_def)

lemma block_writes_writes: "block_writes (writes tr) = block_writes tr"
proof (induction tr)
  case Nil
  show ?case by simp
next
  case (Cons e tr)
  then show ?case
    by (cases e) (simp_all add: writes_def block_writes_def map_filter_simps)
qed

lemma commands_simps [simp]:
  "commands [] = []"
  "commands (WriteWord a v # tr) = (if a = NVMCTRL_CTRLB then v # commands tr else commands tr)"
  "commands (WriteBlock a bs # tr) = commands tr"
  "commands (ReadWord a v # tr) = commands tr"
  "commands (ReadBlock a n # tr) = commands tr"
  "commands (VerboseDot # tr) = commands tr"
  by (simp_all add: commands_def map_filter_simps)

lemma commands_append [simp]: "commands (xs @ ys) = commands xs @ commands ys"
  by (simp add: commands_def map_filter_def)

lemma commands_writes: "commands (writes tr) = commands tr"
proof (induction tr)
  case Nil
  show ?case by simp
next
  case (Cons e tr)
  then show ?case
    by (cases e) (simp_all add: writes_def commands_def map_filter_simps)
qed

lemma block_writes_pages:
  "block_writes (concat (map (page_writes base buf) ps)) =
    map (\<lambda>i. (base + of_nat (512 * i), take 512 (drop (512 * i) buf))) ps"
  by (induction ps) (simp_all add: page_writes_def)

lemma commands_pages:
  "commands (concat (map (page_writes base buf) ps)) =
    concat (replicate (length ps) [NVMCTRL_CMD_PBC, NVMCTRL_CMD_WP])"
  by (induction ps) (simp_all add: page_writes_def NVMCTRL_ADDR_def NVMCTRL_CTRLB_def)

lemma pages_of_rows: "concat (map (\<lambda>r. [16 * r..<16 * r + 16]) [0..<R]) = [0..<16 * R]"
proof (induction R)
  case 0
  show ?case by simp
next
  case (Suc R)
  have "[0..<16 * R + 16] = [0..<16 * R] @ [16 * R..<16 * R + 16]"
    by (rule upt_add_eq_append) simp
  then show ?case
    using Suc by (simp add: add.commute)
qed

lemma block_writes_rows:
  "block_writes (concat (map (row_writes base buf) [0..<R])) =
    map (\<lambda>i. (base + of_nat (512 * i), take 512 (drop (512 * i) buf))) [0..<16 * R]"
proof -
  have "block_writes (concat (map (row_writes base buf) rs)) =
      map (\<lambda>i. (base + of_nat (512 * i), take 512 (drop (512 * i) buf)))
        (concat (map (\<lambda>r. [16 * r..<16 * r + 16]) rs))" for rs
    by (induction rs) (simp_all only: list.map concat.simps block_writes_append map_append
        block_writes_simps row_writes_def append_Cons append_Nil block_writes_pages)
  then show ?thesis
    by (simp only: pages_of_rows)
qed

lemma commands_rows:
  "commands (concat (map (row_writes base buf) rs)) =
    concat (replicate (length rs)
      ([NVMCTRL_CMD_UR, NVMCTRL_CMD_EB] @
       concat (replicate 16 [NVMCTRL_CMD_PBC, NVMCTRL_CMD_WP])))"
proof (induction rs)
  case Nil
  show ?case by simp
next
  case (Cons r rs)
  have "commands (row_writes base buf r) =
      [NVMCTRL_CMD_UR, NVMCTRL_CMD_EB] @ concat (replicate 16 [NVMCTRL_CMD_PBC, NVMCTRL_CMD_WP])"
    unfolding row_writes_def commands_append commands_pages
    by (simp add: NVMCTRL_ADDR_def NVMCTRL_CTRLB_def)
  then show ?case
    using Cons by simp
qed

lemma block_writes_program:
  "block_writes (program_writes base buf R) =
    map (\<lambda>i. (base + of_nat (512 * i), take 512 (drop (512 * i) buf))) [0..<16 * R]"
  unfolding program_writes_def by (simp only: block_writes_simps block_writes_rows)

lemma commands_program:
  "commands (program_writes base buf R) =
    concat (replicate R
      ([NVMCTRL_CMD_UR, NVMCTRL_CMD_EB] @
       concat (replicate 16 [NVMCTRL_CMD_PBC, NVMCTRL_CMD_WP])))"
  unfolding program_writes_def
  by (simp add: commands_rows NVMCTRL_CTRLA_def NVMCTRL_CTRLB_def)

lemma count_list_concat_replicate:
  "count_list (concat (replicate n xs)) x = n * count_list xs x"
  by (induction n) simp_all

text \<open>
  C4. When the protection bit is set in the status that the chip returns,
  \<^verbatim>\<open>target_program\<close> exits with the device-locked error, and all it has done by then is
  the read of the status: the trace has that one event more, no write.
\<close>

theorem program_locked:
  assumes "fst (read_word T DSU_CTRL_STATUS (dev w)) AND DSU_STATUSB_PROT \<noteq> 0"
  shows "\<exists>w'. target_program T w = Some (Inl (DeviceLocked, w')) \<and>
               trace w' = trace w @ [ReadWord DSU_CTRL_STATUS (fst (read_word T DSU_CTRL_STATUS (dev w)))]"
proof -
  obtain v w1 where r: "dap_read_word T DSU_CTRL_STATUS w = (v, w1)"
    by (cases "dap_read_word T DSU_CTRL_STATUS w")
  have v: "v = fst (read_word T DSU_CTRL_STATUS (dev w))"
    using fst_dap_read_word [of T DSU_CTRL_STATUS w] r by simp
  have "trace (snd (dap_read_word T DSU_CTRL_STATUS w)) = trace w @ [ReadWord DSU_CTRL_STATUS v]"
    unfolding v by simp
  then have "trace w1 = trace w @ [ReadWord DSU_CTRL_STATUS v]"
    using r by simp
  then show ?thesis
    using assms r by (simp add: target_program_def v [symmetric] Let_def)
qed

theorem program_locked_witness:
  "fst (read_word chip_transport DSU_CTRL_STATUS
          (dev (world0 (chip0 0x61840000 True) (devices ! 0) (options0 [1, 2, 3, 4] 4))))
     AND DSU_STATUSB_PROT \<noteq> 0 \<and>
   (\<exists>w'. target_program chip_transport
            (world0 (chip0 0x61840000 True) (devices ! 0) (options0 [1, 2, 3, 4] 4))
            = Some (Inl (DeviceLocked, w')) \<and>
          trace w' = [ReadWord DSU_CTRL_STATUS 0x10100])"
proof -
  have a: "fst (read_word chip_transport DSU_CTRL_STATUS
          (dev (world0 (chip0 0x61840000 True) (devices ! 0) (options0 [1, 2, 3, 4] 4))))
     AND DSU_STATUSB_PROT \<noteq> 0"
    by (simp add: chip_transport_def world0_def chip0_def register_defs)
  have b: "fst (read_word chip_transport DSU_CTRL_STATUS
          (dev (world0 (chip0 0x61840000 True) (devices ! 0) (options0 [1, 2, 3, 4] 4))))
     = 0x10100"
    by (simp add: chip_transport_def world0_def chip0_def register_defs)
  have c: "trace (world0 (chip0 0x61840000 True) (devices ! 0) (options0 [1, 2, 3, 4] 4)) = []"
    by (simp add: world0_def)
  show ?thesis
    using a program_locked [OF a] unfolding b c by simp
qed

subsection \<open>Verifying\<close>

declare verify_compare.simps [simp del] verify_blocks.simps [simp del]

lemma uint_small:
  assumes "unat (b :: u32) \<le> n"
  shows "uint b \<le> int n"
proof -
  have "int (unat b) \<le> int n"
    using assms by (simp only: of_nat_le_iff)
  then show ?thesis
    by (simp only: uint_nat)
qed

lemma sint_small:
  assumes "unat (b :: u32) \<le> 512"
  shows "sint b = int (unat b)"
proof -
  have "uint b \<le> 512"
    using uint_small [OF assms] by simp
  then have "uint b < 2 ^ 31"
    by simp
  moreover have "- (2 ^ 31) \<le> uint b"
    by (rule order_trans [of _ 0]) simp_all
  ultimately have "signed_take_bit 31 (uint b) = uint b"
    by (simp only: signed_take_bit_int_eq_self)
  then have "sint b = uint b"
    by (simp add: sint_uint)
  then show ?thesis
    by (simp only: uint_nat)
qed

lemma unat_offset_index:
  assumes "unat (offs :: u32) + i < 2 ^ 32"
  shows "unat (offs + word_of_int (int i)) = unat offs + i"
proof -
  have i: "unat (word_of_nat i :: u32) = i"
    using assms by (simp add: unat_of_nat_u32)
  then have "unat offs + unat (word_of_nat i :: u32) < 2 ^ LENGTH(32)"
    using assms by simp
  then have "unat (offs + word_of_nat i) = unat offs + unat (word_of_nat i :: u32)"
    by (simp only: unat_add_lem)
  then show ?thesis
    using i by simp
qed

lemma verify_compare_end:
  assumes "unat bs \<le> 512" and "unat bs \<le> i"
  shows "verify_compare bufa bufb addr offs bs (int i) w = Some (Inr w)"
proof -
  have "\<not> int i < sint bs"
    using assms(2) by (simp only: sint_small [OF assms(1)] of_nat_less_iff not_less)
  then show ?thesis
    by (subst verify_compare.simps) (simp only: if_False)
qed

lemma verify_compare_unfold:
  assumes "unat bs \<le> 512" and "length bufb = 512" and "unat offs + unat bs \<le> length bufa"
    and "unat offs + unat bs \<le> 2 ^ 32" and "i < unat bs"
  shows "verify_compare bufa bufb addr offs bs (int i) w =
    (if bufa ! (unat offs + i) \<noteq> bufb ! i
     then Some (Inl (VerificationFailed,
            log BufFree
              (log (VerboseMismatch (addr + of_nat i) (bufa ! (unat offs + i)) (bufb ! i)) w)))
     else verify_compare bufa bufb addr offs bs (int (Suc i)) w)"
proof -
  have "unat offs + i < 2 ^ 32"
    using assms(4,5) by simp
  then have "unat (offs + word_of_int (int i)) = unat offs + i"
    by (rule unat_offset_index)
  then have idx: "unat (offs + word_of_nat i) = unat offs + i"
    by (simp only: of_int_of_nat_eq)
  have a: "byte_at bufa (unat offs + i) = Some (bufa ! (unat offs + i))"
    using assms(3,5) by (simp add: byte_at_def)
  have b: "byte_at bufb (nat (int i)) = Some (bufb ! i)"
    using assms(1,2,5) by (simp add: byte_at_def)
  have lt: "int i < sint bs"
    using assms(5) by (simp only: sint_small [OF assms(1)] of_nat_less_iff)
  have s: "int i + 1 = int (Suc i)"
    by simp
  show ?thesis
    by (subst verify_compare.simps) (simp only: lt if_True of_int_of_nat_eq idx a b option.case
        Let_def s)
qed

lemma verify_compare_equal:
  assumes "unat bs \<le> 512" and "length bufb = 512" and "unat offs + unat bs \<le> length bufa"
    and "unat offs + unat bs \<le> 2 ^ 32"
    and "\<forall>j. i \<le> j \<and> j < unat bs \<longrightarrow> bufa ! (unat offs + j) = bufb ! j"
  shows "verify_compare bufa bufb addr offs bs (int i) w = Some (Inr w)"
  using assms(5)
proof (induction "unat bs - i" arbitrary: i)
  case 0
  then show ?case
    using assms(1) by (simp add: verify_compare_end)
next
  case (Suc k)
  then have i: "i < unat bs" and k: "k = unat bs - Suc i"
    by simp_all
  have "verify_compare bufa bufb addr offs bs (int (Suc i)) w = Some (Inr w)"
    using Suc.prems by (intro Suc.hyps(1) [OF k]) simp
  moreover have "bufa ! (unat offs + i) = bufb ! i"
    using Suc.prems i by simp
  ultimately show ?case
    by (simp add: verify_compare_unfold [OF assms(1-4) i])
qed

lemma verify_compare_mismatch:
  assumes "unat bs \<le> 512" and "length bufb = 512" and "unat offs + unat bs \<le> length bufa"
    and "unat offs + unat bs \<le> 2 ^ 32"
    and "j < unat bs" and "bufa ! (unat offs + j) \<noteq> bufb ! j"
  shows "i \<le> j \<Longrightarrow> \<forall>j'. i \<le> j' \<and> j' < j \<longrightarrow> bufa ! (unat offs + j') = bufb ! j' \<Longrightarrow>
    verify_compare bufa bufb addr offs bs (int i) w =
      Some (Inl (VerificationFailed,
        log BufFree (log (VerboseMismatch (addr + of_nat j) (bufa ! (unat offs + j)) (bufb ! j)) w)))"
proof (induction "j - i" arbitrary: i)
  case 0
  then have "i = j"
    by simp
  then show ?case
    using assms(6) by (simp add: verify_compare_unfold [OF assms(1-5)])
next
  case (Suc k)
  then have i: "i < j" and k: "k = j - Suc i"
    by simp_all
  have ib: "i < unat bs"
    using i assms(5) by simp
  have "verify_compare bufa bufb addr offs bs (int (Suc i)) w =
      Some (Inl (VerificationFailed,
        log BufFree (log (VerboseMismatch (addr + of_nat j) (bufa ! (unat offs + j)) (bufb ! j)) w)))"
    using Suc.prems i by (intro Suc.hyps(1) [OF k]) simp_all
  moreover have "bufa ! (unat offs + i) = bufb ! i"
    using Suc.prems i by simp
  ultimately show ?case
    by (simp add: verify_compare_unfold [OF assms(1-4) ib])
qed

lemma verify_blocks_done:
  "verify_blocks T bufa addr offs 0 w = Some (Inr w)"
  by (simp add: verify_blocks.simps)

lemma block_size_of_nat:
  assumes "d < 2 ^ 32"
  shows "(if (word_of_nat d :: u32) > FLASH_PAGE_SIZE then FLASH_PAGE_SIZE else word_of_nat d)
    = word_of_nat (min 512 d)"
proof -
  have "unat (word_of_nat d :: u32) = d"
    using assms by (rule unat_of_nat_u32)
  then have "(word_of_nat d :: u32) > 512 \<longleftrightarrow> d > 512"
    by (simp add: word_less_nat_alt)
  then show ?thesis
    by (simp add: FLASH_PAGE_SIZE_def min_def)
qed

lemma read_block_store:
  assumes "reads_store T store"
  shows "fst (dap_read_block T a n w) = map (\<lambda>i. store (dev w) (a + of_nat i)) [0..<n]"
    and "store (dev (snd (dap_read_block T a n w))) = store (dev w)"
  using assms by (simp_all add: reads_store_def)

lemma verify_blocks_unfold:
  assumes rs: "reads_store T store" and L: "L < 2 ^ 32" and m: "512 * m < L"
  shows "verify_blocks T bufa (base + of_nat (512 * m)) (of_nat (512 * m)) (of_nat (L - 512 * m)) w =
    (case verify_compare bufa (map (\<lambda>i. store (dev w) (base + of_nat (512 * m) + of_nat i)) [0..<512])
            (base + of_nat (512 * m)) (of_nat (512 * m)) (of_nat (min 512 (L - 512 * m))) 0
            (snd (dap_read_block T (base + of_nat (512 * m)) 512 w)) of
       None \<Rightarrow> None
     | Some (Inl e) \<Rightarrow> Some (Inl e)
     | Some (Inr w1) \<Rightarrow>
         verify_blocks T bufa (base + of_nat (512 * (m + 1))) (of_nat (512 * (m + 1)))
           (of_nat (L - 512 * (m + 1))) (log VerboseDot w1))"
proof -
  define d where "d = L - 512 * m"
  define sz :: u32 where "sz = word_of_nat d"
  define offs :: u32 where "offs = word_of_nat (512 * m)"
  define addr :: u32 where "addr = base + offs"
  have d: "0 < d" "d < 2 ^ 32"
    using L m by (simp_all add: d_def)
  then have "unat sz = d"
    unfolding sz_def by (simp add: unat_of_nat_u32)
  then have nz: "sz \<noteq> 0"
    using d(1) by auto
  obtain bufb w1 where r: "dap_read_block T addr (unat FLASH_PAGE_SIZE) w = (bufb, w1)"
    by (cases "dap_read_block T addr (unat FLASH_PAGE_SIZE) w")
  have "fst (dap_read_block T addr 512 w) = bufb"
    using r by (simp add: FLASH_PAGE_SIZE_def)
  then have bufb: "bufb = map (\<lambda>i. store (dev w) (addr + of_nat i)) [0..<512]"
    by (simp only: read_block_store(1) [OF rs, of addr 512 w])
  have w1: "w1 = snd (dap_read_block T addr 512 w)"
    using r by (simp add: FLASH_PAGE_SIZE_def)
  have bs: "(if sz > FLASH_PAGE_SIZE then FLASH_PAGE_SIZE else sz) = word_of_nat (min 512 d)"
    unfolding sz_def using d(2) by (rule block_size_of_nat)
  have "d - min 512 d = L - 512 * (m + 1)"
    by (simp add: d_def min_def add.commute)
  then have rest: "sz - word_of_nat (min 512 d) = word_of_nat (L - 512 * (m + 1))"
    unfolding sz_def by (simp only: of_nat_diff [symmetric] min.cobounded2)
  have nxt: "offs + FLASH_PAGE_SIZE = word_of_nat (512 * (m + 1))"
    "addr + FLASH_PAGE_SIZE = base + word_of_nat (512 * (m + 1))"
    unfolding addr_def offs_def by (simp_all only: page_offset_next)
  have "verify_blocks T bufa addr offs sz w =
    (case verify_compare bufa bufb addr offs (word_of_nat (min 512 d)) 0 w1 of
       None \<Rightarrow> None
     | Some (Inl e) \<Rightarrow> Some (Inl e)
     | Some (Inr w1) \<Rightarrow>
         verify_blocks T bufa (base + of_nat (512 * (m + 1))) (of_nat (512 * (m + 1)))
           (of_nat (L - 512 * (m + 1))) (log VerboseDot w1))"
    by (subst verify_blocks.simps) (simp only: nz r bs rest nxt if_True prod.case Let_def simp_thms)
  then show ?thesis
    unfolding bufb w1 addr_def offs_def sz_def d_def .
qed

lemma block_byte:
  "j < 512 \<Longrightarrow>
    map (\<lambda>i. M ((base :: u32) + of_nat (512 * m) + of_nat i)) [0..<512] ! j =
      M (base + of_nat (512 * m + j))"
  by (simp add: add.assoc)

lemma verify_block_equal:
  assumes L: "L < 2 ^ 32" "L \<le> length bufa" and m: "512 * m < L"
    and eq: "\<forall>k. 512 * m \<le> k \<and> k < L \<and> k < 512 * (m + 1) \<longrightarrow>
      bufa ! k = M ((base :: u32) + of_nat k)"
  shows "verify_compare bufa (map (\<lambda>i. M (base + of_nat (512 * m) + of_nat i)) [0..<512])
           addr (of_nat (512 * m)) (of_nat (min 512 (L - 512 * m))) 0 w = Some (Inr w)"
proof -
  define bs :: u32 where "bs = word_of_nat (min 512 (L - 512 * m))"
  define offs :: u32 where "offs = word_of_nat (512 * m)"
  define bufb where "bufb = map (\<lambda>i. M (base + of_nat (512 * m) + of_nat i)) [0..<512]"
  have bs: "unat bs = min 512 (L - 512 * m)"
    unfolding bs_def by (rule unat_of_nat_u32) simp
  have offs: "unat offs = 512 * m"
    unfolding offs_def using L(1) m by (intro unat_of_nat_u32) simp
  have 1: "unat bs \<le> 512" and 2: "length bufb = 512"
    and 3: "unat offs + unat bs \<le> length bufa" and 4: "unat offs + unat bs \<le> 2 ^ 32"
    using L m by (simp_all add: bs offs bufb_def)
  have "\<forall>j. 0 \<le> j \<and> j < unat bs \<longrightarrow> bufa ! (unat offs + j) = bufb ! j"
  proof (intro allI impI)
    fix j
    assume "0 \<le> j \<and> j < unat bs"
    then have "j < 512" "j < L - 512 * m"
      using bs by simp_all
    then have j: "j < 512" "512 * m + j < L" "512 * m + j < 512 * (m + 1)"
      by simp_all
    then have "bufa ! (512 * m + j) = M (base + of_nat (512 * m + j))"
      using eq by simp
    then show "bufa ! (unat offs + j) = bufb ! j"
      unfolding bufb_def offs by (simp only: block_byte [OF j(1)])
  qed
  then have "verify_compare bufa bufb addr offs bs (int 0) w = Some (Inr w)"
    by (rule verify_compare_equal [OF 1 2 3 4])
  then have "verify_compare bufa bufb addr offs bs 0 w = Some (Inr w)"
    by simp
  then show ?thesis
    unfolding bs_def offs_def bufb_def .
qed

lemma verify_block_mismatch:
  assumes L: "L < 2 ^ 32" "L \<le> length bufa"
    and k: "512 * m \<le> k" "k < L" "k < 512 * (m + 1)"
    and eq: "\<forall>j. 512 * m \<le> j \<and> j < k \<longrightarrow> bufa ! j = M ((base :: u32) + of_nat j)"
    and ne: "bufa ! k \<noteq> M (base + of_nat k)"
  shows "verify_compare bufa (map (\<lambda>i. M (base + of_nat (512 * m) + of_nat i)) [0..<512])
           (base + of_nat (512 * m)) (of_nat (512 * m)) (of_nat (min 512 (L - 512 * m))) 0 w =
         Some (Inl (VerificationFailed,
           log BufFree (log (VerboseMismatch (base + of_nat k) (bufa ! k) (M (base + of_nat k))) w)))"
proof -
  define bs :: u32 where "bs = word_of_nat (min 512 (L - 512 * m))"
  define offs :: u32 where "offs = word_of_nat (512 * m)"
  define bufb where "bufb = map (\<lambda>i. M (base + of_nat (512 * m) + of_nat i)) [0..<512]"
  define j where "j = k - 512 * m"
  have kj: "k = 512 * m + j" and j512: "j < 512"
    using k by (simp_all add: j_def)
  have bs: "unat bs = min 512 (L - 512 * m)"
    unfolding bs_def by (rule unat_of_nat_u32) simp
  have offs: "unat offs = 512 * m"
    unfolding offs_def using L(1) k by (intro unat_of_nat_u32) simp
  have 1: "unat bs \<le> 512" and 2: "length bufb = 512"
    and 3: "unat offs + unat bs \<le> length bufa" and 4: "unat offs + unat bs \<le> 2 ^ 32"
    using L k by (simp_all add: bs offs bufb_def)
  have "k < 512 * m + 512"
    using k(3) by simp
  then have "k - 512 * m < 512" "k - 512 * m < L - 512 * m"
    using k(1,2) by linarith+
  then have 5: "j < unat bs"
    by (simp add: bs j_def)
  have 6: "bufa ! (unat offs + j) \<noteq> bufb ! j"
    using ne unfolding bufb_def offs kj by (simp only: block_byte [OF j512] simp_thms)
  have 7: "\<forall>j'. 0 \<le> j' \<and> j' < j \<longrightarrow> bufa ! (unat offs + j') = bufb ! j'"
  proof (intro allI impI)
    fix j'
    assume "0 \<le> j' \<and> j' < j"
    then have j': "j' < 512" "512 * m + j' < k"
      using j512 kj by simp_all
    then have "bufa ! (512 * m + j') = M (base + of_nat (512 * m + j'))"
      using eq by simp
    then show "bufa ! (unat offs + j') = bufb ! j'"
      unfolding bufb_def offs by (simp only: block_byte [OF j'(1)])
  qed
  have "verify_compare bufa bufb (base + offs) offs bs (int 0) w =
      Some (Inl (VerificationFailed,
        log BufFree (log (VerboseMismatch (base + offs + of_nat j) (bufa ! (unat offs + j)) (bufb ! j)) w)))"
    using 7 by (intro verify_compare_mismatch [OF 1 2 3 4 5 6]) simp_all
  moreover have "base + offs + of_nat j = base + of_nat k"
    unfolding offs_def kj by (simp add: add.assoc)
  moreover have "bufb ! j = M (base + of_nat k)"
    unfolding bufb_def kj by (rule block_byte [OF j512])
  moreover have "unat offs + j = k"
    using offs kj by simp
  ultimately have "verify_compare bufa bufb (base + offs) offs bs 0 w =
      Some (Inl (VerificationFailed,
        log BufFree (log (VerboseMismatch (base + of_nat k) (bufa ! k) (M (base + of_nat k))) w)))"
    by simp
  then show ?thesis
    unfolding bs_def offs_def bufb_def .
qed


lemma pages_le: "((L::nat) + 511) div 512 \<le> m \<longleftrightarrow> L \<le> 512 * m"
proof -
  have "(L + 511) div 512 < m + 1 \<longleftrightarrow> L + 511 < (m + 1) * 512"
    by (rule div_less_iff_less_mult) simp
  then show ?thesis
    by auto
qed

lemma pages_div: "k div 512 < m \<longleftrightarrow> k < 512 * (m :: nat)"
  using div_less_iff_less_mult [of 512 k m] by (simp add: mult.commute)

lemma read_block_keeps:
  "reads_store T store \<Longrightarrow> store (snd (read_block T a n s)) = store s"
  by (simp add: reads_store_def)

lemma page_reads_empty: "n \<le> m \<Longrightarrow> page_reads base m n = []"
  by (simp add: page_reads_def)

lemma page_reads_step:
  "m < n \<Longrightarrow> page_reads base m n =
    [ReadBlock (base + of_nat (512 * m)) 512, VerboseDot] @ page_reads base (m + 1) n"
  by (simp add: page_reads_def upt_conv_Cons)

lemma verify_blocks_equal:
  assumes rs: "reads_store T store" and L: "L < 2 ^ 32" "L \<le> length bufa"
  shows "store (dev w) = M \<Longrightarrow>
    \<forall>k. 512 * m \<le> k \<and> k < L \<longrightarrow> bufa ! k = M (base + of_nat k) \<Longrightarrow>
    \<exists>w'. verify_blocks T bufa (base + of_nat (512 * m)) (of_nat (512 * m)) (of_nat (L - 512 * m)) w
            = Some (Inr w') \<and>
          trace w' = trace w @ page_reads base m ((L + 511) div 512) \<and>
          store (dev w') = M \<and> target_options w' = target_options w \<and>
          target_device w' = target_device w"
proof (induction "(L + 511) div 512 - m" arbitrary: m w)
  case 0
  then have "(L + 511) div 512 \<le> m"
    by simp
  moreover from this have "L \<le> 512 * m"
    by (simp only: pages_le)
  then have "L - 512 * m = 0"
    by simp
  ultimately show ?case
    using "0.prems"(1) by (simp add: verify_blocks_done page_reads_empty)
next
  case (Suc k)
  define w1 where "w1 = snd (dap_read_block T (base + of_nat (512 * m)) 512 w)"
  have n: "m < (L + 511) div 512" and k: "k = (L + 511) div 512 - (m + 1)"
    using Suc.hyps(2) by simp_all
  have "\<not> (L + 511) div 512 \<le> m"
    using n by simp
  then have m: "512 * m < L"
    by (simp only: pages_le not_le)
  have w1: "trace (log VerboseDot w1) =
      trace w @ [ReadBlock (base + of_nat (512 * m)) 512, VerboseDot]"
    "store (dev (log VerboseDot w1)) = M"
    "target_options (log VerboseDot w1) = target_options w"
    "target_device (log VerboseDot w1) = target_device w"
    using Suc.prems(1) by (simp_all add: w1_def read_block_keeps [OF rs])
  have "verify_compare bufa (map (\<lambda>i. M (base + of_nat (512 * m) + of_nat i)) [0..<512])
           (base + of_nat (512 * m)) (of_nat (512 * m)) (of_nat (min 512 (L - 512 * m))) 0 w1
         = Some (Inr w1)"
    using Suc.prems(2) by (intro verify_block_equal [OF L m]) simp
  then have step: "verify_blocks T bufa (base + of_nat (512 * m)) (of_nat (512 * m))
        (of_nat (L - 512 * m)) w =
      verify_blocks T bufa (base + of_nat (512 * (m + 1))) (of_nat (512 * (m + 1)))
        (of_nat (L - 512 * (m + 1))) (log VerboseDot w1)"
    unfolding verify_blocks_unfold [OF rs L(1) m] Suc.prems(1) w1_def [symmetric] by simp
  have "\<exists>w'. verify_blocks T bufa (base + of_nat (512 * (m + 1))) (of_nat (512 * (m + 1)))
              (of_nat (L - 512 * (m + 1))) (log VerboseDot w1) = Some (Inr w') \<and>
          trace w' = trace (log VerboseDot w1) @ page_reads base (m + 1) ((L + 511) div 512) \<and>
          store (dev w') = M \<and> target_options w' = target_options (log VerboseDot w1) \<and>
          target_device w' = target_device (log VerboseDot w1)"
    using Suc.prems(2) w1(2) by (intro Suc.hyps(1) [OF k]) simp_all
  then show ?case
    unfolding step w1 page_reads_step [OF n] by simp
qed

lemma verify_blocks_mismatch:
  assumes rs: "reads_store T store" and L: "L < 2 ^ 32" "L \<le> length bufa"
    and k: "k < L" and ne: "bufa ! k \<noteq> M (base + of_nat k)"
  shows "store (dev w) = M \<Longrightarrow> 512 * m \<le> k \<Longrightarrow>
    \<forall>j. 512 * m \<le> j \<and> j < k \<longrightarrow> bufa ! j = M (base + of_nat j) \<Longrightarrow>
    \<exists>w'. verify_blocks T bufa (base + of_nat (512 * m)) (of_nat (512 * m)) (of_nat (L - 512 * m)) w
            = Some (Inl (VerificationFailed, w')) \<and>
          trace w' = trace w @ page_reads base m (k div 512) @
            [ReadBlock (base + of_nat (512 * (k div 512))) 512,
             VerboseMismatch (base + of_nat k) (bufa ! k) (M (base + of_nat k)), BufFree] \<and>
          target_options w' = target_options w \<and> target_device w' = target_device w"
proof (induction "k div 512 - m" arbitrary: m w)
  case 0
  define w1 where "w1 = snd (dap_read_block T (base + of_nat (512 * m)) 512 w)"
  have "\<not> k div 512 < m"
    using "0.prems"(2) by (simp only: pages_div not_less)
  then have km: "k div 512 = m"
    using "0.hyps" by simp
  then have "k div 512 < m + 1"
    by simp
  then have k': "k < 512 * (m + 1)"
    by (simp only: pages_div)
  have m: "512 * m < L"
    using "0.prems"(2) k by simp
  have "verify_compare bufa (map (\<lambda>i. M (base + of_nat (512 * m) + of_nat i)) [0..<512])
           (base + of_nat (512 * m)) (of_nat (512 * m)) (of_nat (min 512 (L - 512 * m))) 0 w1 =
         Some (Inl (VerificationFailed,
           log BufFree (log (VerboseMismatch (base + of_nat k) (bufa ! k) (M (base + of_nat k))) w1)))"
    using "0.prems"(3) verify_block_mismatch [of L bufa m k M base w1, OF L "0.prems"(2) k k' _ ne]
    by simp
  then have "verify_blocks T bufa (base + of_nat (512 * m)) (of_nat (512 * m))
        (of_nat (L - 512 * m)) w =
      Some (Inl (VerificationFailed,
           log BufFree (log (VerboseMismatch (base + of_nat k) (bufa ! k) (M (base + of_nat k))) w1)))"
    unfolding verify_blocks_unfold [OF rs L(1) m] "0.prems"(1) w1_def [symmetric] by simp
  then show ?case
    by (simp add: km page_reads_empty w1_def)
next
  case (Suc n)
  define w1 where "w1 = snd (dap_read_block T (base + of_nat (512 * m)) 512 w)"
  have n: "m < k div 512" and n': "n = k div 512 - (m + 1)"
    using Suc.hyps(2) by simp_all
  have "\<not> k div 512 < m + 1"
    using n by simp
  then have k': "512 * (m + 1) \<le> k"
    by (simp only: pages_div not_less)
  then have m: "512 * m < L"
    using k by simp
  have w1: "trace (log VerboseDot w1) =
      trace w @ [ReadBlock (base + of_nat (512 * m)) 512, VerboseDot]"
    "store (dev (log VerboseDot w1)) = M"
    "target_options (log VerboseDot w1) = target_options w"
    "target_device (log VerboseDot w1) = target_device w"
    using Suc.prems(1) by (simp_all add: w1_def read_block_keeps [OF rs])
  have "verify_compare bufa (map (\<lambda>i. M (base + of_nat (512 * m) + of_nat i)) [0..<512])
           (base + of_nat (512 * m)) (of_nat (512 * m)) (of_nat (min 512 (L - 512 * m))) 0 w1
         = Some (Inr w1)"
    using Suc.prems(3) k' by (intro verify_block_equal [OF L m]) simp
  then have step: "verify_blocks T bufa (base + of_nat (512 * m)) (of_nat (512 * m))
        (of_nat (L - 512 * m)) w =
      verify_blocks T bufa (base + of_nat (512 * (m + 1))) (of_nat (512 * (m + 1)))
        (of_nat (L - 512 * (m + 1))) (log VerboseDot w1)"
    unfolding verify_blocks_unfold [OF rs L(1) m] Suc.prems(1) w1_def [symmetric] by simp
  have "\<exists>w'. verify_blocks T bufa (base + of_nat (512 * (m + 1))) (of_nat (512 * (m + 1)))
              (of_nat (L - 512 * (m + 1))) (log VerboseDot w1) =
            Some (Inl (VerificationFailed, w')) \<and>
          trace w' = trace (log VerboseDot w1) @ page_reads base (m + 1) (k div 512) @
            [ReadBlock (base + of_nat (512 * (k div 512))) 512,
             VerboseMismatch (base + of_nat k) (bufa ! k) (M (base + of_nat k)), BufFree] \<and>
          target_options w' = target_options (log VerboseDot w1) \<and>
          target_device w' = target_device (log VerboseDot w1)"
    using Suc.prems(3) w1(2) k' by (intro Suc.hyps(1) [OF n']) simp_all
  then show ?case
    unfolding step w1 page_reads_step [OF n] by simp
qed

lemma target_verify_unfold:
  "target_verify T w =
    (case verify_blocks T (file_data (target_options w))
            (offset (target_options w) + of_nat (512 * 0)) (of_nat (512 * 0))
            (of_nat (unat (file_size (target_options w)) - 512 * 0)) (log (BufAlloc 512) w) of
       None \<Rightarrow> None
     | Some (Inl e) \<Rightarrow> Some (Inl e)
     | Some (Inr w) \<Rightarrow> Some (Inr (log BufFree w)))"
  by (simp add: target_verify_def FLASH_ADDR_def FLASH_PAGE_SIZE_def)

lemma target_verify_equal:
  assumes rs: "reads_store T store"
    and L: "L = unat (file_size (target_options w))" "L \<le> length (file_data (target_options w))"
    and eq: "\<forall>k<L. file_data (target_options w) ! k =
      store (dev w) (offset (target_options w) + of_nat k)"
  shows "\<exists>w'. target_verify T w = Some (Inr w') \<and>
    trace w' = trace w @ [BufAlloc 512] @
      page_reads (offset (target_options w)) 0 ((L + 511) div 512) @ [BufFree] \<and>
    target_options w' = target_options w \<and> store (dev w') = store (dev w)"
proof -
  have "L < 2 ^ 32"
    unfolding L(1) using unsigned_less [of "file_size (target_options w)"] by simp
  then have "\<exists>w'. verify_blocks T (file_data (target_options w))
      (offset (target_options w) + of_nat (512 * 0)) (of_nat (512 * 0)) (of_nat (L - 512 * 0))
      (log (BufAlloc 512) w) = Some (Inr w') \<and>
    trace w' = trace (log (BufAlloc 512) w) @
      page_reads (offset (target_options w)) 0 ((L + 511) div 512) \<and>
    store (dev w') = store (dev w) \<and> target_options w' = target_options (log (BufAlloc 512) w) \<and>
    target_device w' = target_device (log (BufAlloc 512) w)"
    using eq verify_blocks_equal [where M = "store (dev w)" and m = 0
        and base = "offset (target_options w)" and w = "log (BufAlloc 512) w", OF rs _ L(2)]
    by simp
  then show ?thesis
    unfolding target_verify_unfold L(1) [symmetric] by auto
qed

lemma target_verify_mismatch:
  assumes rs: "reads_store T store"
    and L: "L = unat (file_size (target_options w))" "L \<le> length (file_data (target_options w))"
    and k: "k < L"
    and ne: "file_data (target_options w) ! k \<noteq>
      store (dev w) (offset (target_options w) + of_nat k)"
    and eq: "\<forall>j<k. file_data (target_options w) ! j =
      store (dev w) (offset (target_options w) + of_nat j)"
  shows "\<exists>w'. target_verify T w = Some (Inl (VerificationFailed, w')) \<and>
    trace w' = trace w @ [BufAlloc 512] @
      page_reads (offset (target_options w)) 0 (k div 512) @
      [ReadBlock (offset (target_options w) + of_nat (512 * (k div 512))) 512,
       VerboseMismatch (offset (target_options w) + of_nat k) (file_data (target_options w) ! k)
         (store (dev w) (offset (target_options w) + of_nat k)),
       BufFree]"
proof -
  have "L < 2 ^ 32"
    unfolding L(1) using unsigned_less [of "file_size (target_options w)"] by simp
  then have "\<exists>w'. verify_blocks T (file_data (target_options w))
      (offset (target_options w) + of_nat (512 * 0)) (of_nat (512 * 0)) (of_nat (L - 512 * 0))
      (log (BufAlloc 512) w) = Some (Inl (VerificationFailed, w')) \<and>
    trace w' = trace (log (BufAlloc 512) w) @
      page_reads (offset (target_options w)) 0 (k div 512) @
      [ReadBlock (offset (target_options w) + of_nat (512 * (k div 512))) 512,
       VerboseMismatch (offset (target_options w) + of_nat k) (file_data (target_options w) ! k)
         (store (dev w) (offset (target_options w) + of_nat k)),
       BufFree] \<and>
    target_options w' = target_options (log (BufAlloc 512) w) \<and>
    target_device w' = target_device (log (BufAlloc 512) w)"
    using eq verify_blocks_mismatch [where M = "store (dev w)" and m = 0
        and base = "offset (target_options w)" and w = "log (BufAlloc 512) w", OF rs _ L(2) k ne]
    by simp
  then show ?thesis
    unfolding target_verify_unfold L(1) [symmetric] by auto
qed

text \<open>
  C5. For a transport whose block reads return the memory of the chip, and an image of
  \<open>L\<close> bytes that its buffer holds, \<^verbatim>\<open>target_verify\<close> depends on the first index below
  \<open>L\<close> at which the image and the memory from the offset on differ. When there is none,
  it returns, having read the \<open>ceil(L / 512)\<close> pages of the image. When it is \<open>k\<close>, it
  exits with the verification error: it has read the pages up to the one that holds
  \<open>k\<close>, it has reported the address \<open>offset + k\<close>, the byte of the image and the byte
  read, it has freed its page buffer, and it has done nothing after that. Bytes at \<open>L\<close>
  and above, in the last page or in the buffer, have no part in this.
\<close>

theorem verify_first_mismatch:
  assumes "reads_store T store"
    and "L = unat (file_size (target_options w))"
    and "L \<le> length (file_data (target_options w))"
  shows "case List.find
      (\<lambda>k. file_data (target_options w) ! k \<noteq> store (dev w) (offset (target_options w) + of_nat k))
      [0..<L] of
    None \<Rightarrow>
      \<exists>w'. target_verify T w = Some (Inr w') \<and>
        trace w' = trace w @ [BufAlloc 512] @
          page_reads (offset (target_options w)) 0 ((L + 511) div 512) @ [BufFree]
  | Some k \<Rightarrow>
      \<exists>w'. target_verify T w = Some (Inl (VerificationFailed, w')) \<and>
        trace w' = trace w @ [BufAlloc 512] @
          page_reads (offset (target_options w)) 0 (k div 512) @
          [ReadBlock (offset (target_options w) + of_nat (512 * (k div 512))) 512,
           VerboseMismatch (offset (target_options w) + of_nat k)
             (file_data (target_options w) ! k)
             (store (dev w) (offset (target_options w) + of_nat k)),
           BufFree]"
proof (cases "List.find
      (\<lambda>k. file_data (target_options w) ! k \<noteq> store (dev w) (offset (target_options w) + of_nat k))
      [0..<L]")
  case None
  then have "\<forall>k<L. file_data (target_options w) ! k =
      store (dev w) (offset (target_options w) + of_nat k)"
    by (simp add: find_None_iff)
  then show ?thesis
    using target_verify_equal [OF assms] None by auto
next
  case (Some k)
  then have "k < L \<and>
    file_data (target_options w) ! k \<noteq> store (dev w) (offset (target_options w) + of_nat k) \<and>
    (\<forall>j<k. file_data (target_options w) ! j =
      store (dev w) (offset (target_options w) + of_nat j))"
    by (auto simp add: find_Some_iff)
  then show ?thesis
    using target_verify_mismatch [OF assms, of k] Some by simp
qed

subsection \<open>Programming, then verifying\<close>

lemma replay_append: "replay (ws @ vs) m = replay vs (replay ws m)"
  by (induction ws arbitrary: m) auto

lemma replay_snoc:
  "replay (ws @ [(a, bs)]) m x =
    (if unat (x - a) < length bs then bs ! unat (x - a) else replay ws m x)"
  by (simp add: replay_append)

lemma of_nat_wrap: "(word_of_nat (2 ^ 32) :: u32) = 0"
  by simp

lemma unat_behind:
  assumes "k < n" and "n + 512 \<le> 2 ^ 32"
  shows "512 \<le> unat (word_of_nat k - word_of_nat n :: u32)"
proof -
  define d where "d = 2 ^ 32 + k - n"
  have d: "d < 2 ^ 32" "512 \<le> d" "d = (2 ^ 32 + k) - n" "n \<le> 2 ^ 32 + k"
    using assms by (simp_all add: d_def)
  have "(word_of_nat d :: u32) = word_of_nat (2 ^ 32 + k) - word_of_nat n"
    unfolding d(3) using d(4) by (rule of_nat_diff)
  also have "\<dots> = word_of_nat k - word_of_nat n"
    by (simp only: of_nat_add of_nat_wrap add_0_left)
  finally have "unat (word_of_nat k - word_of_nat n :: u32) = unat (word_of_nat d :: u32)"
    by simp
  then show ?thesis
    using d(1,2) by (simp only: unat_of_nat_u32)
qed

lemma unat_ahead:
  assumes "n \<le> k" and "k < 2 ^ 32"
  shows "unat (word_of_nat k - word_of_nat n :: u32) = k - n"
proof -
  have e: "(word_of_nat (k - n) :: u32) = word_of_nat k - word_of_nat n"
    using assms(1) by (rule of_nat_diff)
  have "k - n < 2 ^ 32"
    using assms(2) by simp
  then have "unat (word_of_nat (k - n) :: u32) = k - n"
    by (rule unat_of_nat_u32)
  then show ?thesis
    unfolding e .
qed

lemma replay_pages:
  assumes "512 * N \<le> 2 ^ 32" and "512 * N \<le> length buf" and "k < 512 * N"
  shows "replay (map (\<lambda>i. ((base :: u32) + of_nat (512 * i), take 512 (drop (512 * i) buf))) [0..<N])
    m (base + of_nat k) = buf ! k"
  using assms
proof (induction N)
  case 0
  then show ?case by simp
next
  case (Suc N)
  define a :: u32 where "a = base + of_nat (512 * N)"
  define bs where "bs = take 512 (drop (512 * N) buf)"
  define ws where
    "ws = map (\<lambda>i. (base + of_nat (512 * i), take 512 (drop (512 * i) buf))) [0..<N]"
  have len: "length bs = 512"
    using Suc.prems(2) by (simp add: bs_def)
  have diff: "base + of_nat k - a = word_of_nat k - word_of_nat (512 * N)"
    by (simp add: a_def)
  have split: "replay (map (\<lambda>i. (base + of_nat (512 * i), take 512 (drop (512 * i) buf))) [0..<Suc N])
      m (base + of_nat k) =
    (if unat (base + of_nat k - a) < length bs then bs ! unat (base + of_nat k - a)
     else replay ws m (base + of_nat k))"
    unfolding ws_def a_def bs_def by (simp only: upt_Suc_append le0 map_append list.map replay_snoc)
  show ?case
  proof (cases "512 * N \<le> k")
    case True
    have "k < 2 ^ 32"
      using Suc.prems(1,3) by simp
    then have u: "unat (base + of_nat k - a) = k - 512 * N"
      unfolding diff using True by (intro unat_ahead)
    have "k - 512 * N < 512"
      using Suc.prems(3) True by simp
    moreover from this have "bs ! (k - 512 * N) = buf ! k"
      using True Suc.prems(2) by (simp add: bs_def)
    ultimately show ?thesis
      unfolding split u len by simp
  next
    case False
    then have k: "k < 512 * N"
      by simp
    have "512 * N + 512 \<le> (2::nat) ^ 32"
      using Suc.prems(1) by simp
    then have "512 \<le> unat (base + of_nat k - a)"
      unfolding diff using k by (intro unat_behind)
    then have "\<not> unat (base + of_nat k - a) < length bs"
      by (simp add: len)
    moreover have "replay ws m (base + of_nat k) = buf ! k"
      unfolding ws_def using Suc.prems k by (intro Suc.IH) simp_all
    ultimately show ?thesis
      unfolding split by simp
  qed
qed

lemma spy_stable:
  assumes "spy T store"
  shows "stable T (\<lambda>x. \<exists>evs. trace x = tr0 @ evs \<and> store (dev x) = replay (block_writes evs) m0)"
proof -
  have rb: "\<And>a n s. store (snd (read_block T a n s)) = store s"
    and wb: "\<And>a bs s. store (write_block T a bs s) =
      (\<lambda>x. if unat (x - a) < length bs then bs ! unat (x - a) else store s x)"
    and ww: "\<And>a v s. store (write_word T a v s) = store s"
    and rw: "\<And>a s. store (snd (read_word T a s)) = store s"
    using assms by (auto simp add: spy_def reads_store_def)
  have 1: "\<exists>evs'. trace (dap_write_word T a v w) = tr0 @ evs' \<and>
      store (dev (dap_write_word T a v w)) = replay (block_writes evs') m0"
    if "trace w = tr0 @ evs" "store (dev w) = replay (block_writes evs) m0" for w a v evs
    using that by (intro exI [of _ "evs @ [WriteWord a v]"]) (simp add: ww)
  have 2: "\<exists>evs'. trace (snd (dap_read_word T a w)) = tr0 @ evs' \<and>
      store (dev (snd (dap_read_word T a w))) = replay (block_writes evs') m0"
    if "trace w = tr0 @ evs" "store (dev w) = replay (block_writes evs) m0" for w a evs
    using that
    by (intro exI [of _ "evs @ [ReadWord a (fst (read_word T a (dev w)))]"]) (simp add: rw)
  have 3: "\<exists>evs'. trace (dap_write_block T a bs w) = tr0 @ evs' \<and>
      store (dev (dap_write_block T a bs w)) = replay (block_writes evs') m0"
    if "trace w = tr0 @ evs" "store (dev w) = replay (block_writes evs) m0" for w a bs evs
    using that(1)
    by (intro exI [of _ "evs @ [WriteBlock a bs]"]) (simp add: wb replay_append that(2) [symmetric])
  have 4: "\<exists>evs'. trace (snd (dap_read_block T a n w)) = tr0 @ evs' \<and>
      store (dev (snd (dap_read_block T a n w))) = replay (block_writes evs') m0"
    if "trace w = tr0 @ evs" "store (dev w) = replay (block_writes evs) m0" for w a n evs
    using that by (intro exI [of _ "evs @ [ReadBlock a n]"]) (simp add: rb)
  have 5: "\<exists>evs'. trace (log VerboseDot w) = tr0 @ evs' \<and>
      store (dev (log VerboseDot w)) = replay (block_writes evs') m0"
    if "trace w = tr0 @ evs" "store (dev w) = replay (block_writes evs) m0" for w evs
    using that by (intro exI [of _ "evs @ [VerboseDot]"]) simp
  show ?thesis
    unfolding stable_def using 1 2 3 4 5 by blast
qed

lemma program_store:
  assumes spy: "spy (T :: 's transport) store" and resp: "responsive T"
    and unlocked: "fst (read_word T DSU_CTRL_STATUS (dev w)) AND DSU_STATUSB_PROT = 0"
    and sz: "unat (file_size (target_options w)) + 8191 < 2 ^ 32"
    and R: "R = (unat (file_size (target_options w)) + 8191) div 8192"
    and cap: "8192 * R \<le> length (file_data (target_options w))"
  shows "\<exists>w'. target_program T w = Some (Inr w') \<and> target_options w' = target_options w \<and>
    (\<forall>k<8192 * R. store (dev w') (offset (target_options w) + of_nat k) =
       file_data (target_options w) ! k)"
proof -
  define buf where "buf = file_data (target_options w)"
  define base where "base = offset (target_options w)"
  define P where "P = (\<lambda>x :: 's world. \<exists>evs. trace x = trace w @ evs \<and>
    store (dev x) = replay (block_writes evs) (store (dev w)))"
  have st: "stable T P"
    unfolding P_def using spy by (rule spy_stable)
  have "P w"
    by (simp add: P_def)
  moreover have fit: "16 * R \<le> length buf div 512"
    using cap by (simp add: buf_def)
  ultimately obtain w' where run: "target_program T w = Some (Inr w')"
    and wr: "writes (trace w') = writes (trace w) @ program_writes base buf R"
    and o: "target_options w' = target_options w" and p: "P w'"
    using target_program_run [OF resp st unlocked sz R] unfolding buf_def base_def by auto
  obtain evs where evs: "trace w' = trace w @ evs"
    and m: "store (dev w') = replay (block_writes evs) (store (dev w))"
    using p unfolding P_def by blast
  have "block_writes (writes (trace w')) =
      block_writes (writes (trace w)) @ block_writes (program_writes base buf R)"
    unfolding wr by simp
  then have "block_writes (trace w) @ block_writes evs =
      block_writes (trace w) @ block_writes (program_writes base buf R)"
    unfolding block_writes_writes evs by simp
  then have bw: "block_writes evs =
      map (\<lambda>i. (base + of_nat (512 * i), take 512 (drop (512 * i) buf))) [0..<16 * R]"
    by (simp add: block_writes_program)
  have "8192 * R \<le> 2 ^ 32"
    using sz unfolding R by simp
  then have N: "512 * (16 * R) \<le> (2::nat) ^ 32" "512 * (16 * R) \<le> length buf"
    using cap by (simp_all add: buf_def)
  have "\<forall>k<8192 * R. store (dev w') (base + of_nat k) = buf ! k"
  proof (intro allI impI)
    fix k
    assume "k < 8192 * R"
    then have "k < 512 * (16 * R)"
      by simp
    then show "store (dev w') (base + of_nat k) = buf ! k"
      unfolding m bw by (rule replay_pages [OF N])
  qed
  then show ?thesis
    using run o unfolding buf_def base_def by blast
qed

lemma rows_cover: "(L::nat) \<le> 8192 * ((L + 8191) div 8192)"
proof -
  have "(L + 8191) mod 8192 < 8192"
    by simp
  moreover have "8192 * ((L + 8191) div 8192) + (L + 8191) mod 8192 = L + 8191"
    by simp
  ultimately show ?thesis
    by linarith
qed

lemma of_nat_u32_inject:
  assumes "j < 2 ^ 32" and "k < 2 ^ 32" and "(word_of_nat j :: u32) = word_of_nat k"
  shows "j = k"
proof -
  have "unat (word_of_nat j :: u32) = unat (word_of_nat k :: u32)"
    using assms(3) by simp
  then show ?thesis
    by (simp only: unat_of_nat_u32 [OF assms(1)] unat_of_nat_u32 [OF assms(2)])
qed

subsection \<open>The transport of the examples\<close>

lemma responsive_chip: "responsive chip_transport"
proof -
  have "wait_ready chip_transport w \<noteq> None" for w
    unfolding wait_ready_def
    by (subst poll.simps)
      (simp add: dap_read_word_def chip_transport_def register_defs split: prod.splits)
  then show ?thesis
    by (simp add: responsive_def)
qed

lemma spy_chip: "spy chip_transport flash"
  by (simp add: spy_def reads_store_def chip_transport_def)

lemma chip_unlocked:
  "fst (read_word chip_transport DSU_CTRL_STATUS (dev (world0 (chip0 v False) d opts)))
     AND DSU_STATUSB_PROT = 0"
  by (simp add: chip_transport_def world0_def chip0_def register_defs)

lemma stable_True: "stable T (\<lambda>w. True)"
  by (simp add: stable_def)

lemma unat_page_address:
  assumes "unat (base :: u32) + n < 2 ^ 32"
  shows "unat (base + of_nat n) = unat base + n"
proof -
  have n: "unat (word_of_nat n :: u32) = n"
    using assms by (intro unat_of_nat_u32) simp
  then have "unat base + unat (word_of_nat n :: u32) < 2 ^ LENGTH(32)"
    using assms by simp
  then have "unat (base + word_of_nat n) = unat base + unat (word_of_nat n :: u32)"
    by (simp only: unat_add_lem)
  then show ?thesis
    by (simp only: n)
qed

lemma count_list_append: "count_list (xs @ ys) x = count_list xs x + count_list ys x"
  by (induction xs) simp_all

lemma program_returns:
  assumes resp: "responsive T"
    and unlocked: "fst (read_word T DSU_CTRL_STATUS (dev w)) AND DSU_STATUSB_PROT = 0"
    and sz: "unat (file_size (target_options w)) + 8191 < 2 ^ 32"
    and R: "R = (unat (file_size (target_options w)) + 8191) div 8192"
    and cap: "8192 * R \<le> length (file_data (target_options w))"
  shows "\<exists>w'. target_program T w = Some (Inr w') \<and>
    commands (trace w') = commands (trace w) @
      concat (replicate R ([NVMCTRL_CMD_UR, NVMCTRL_CMD_EB] @
        concat (replicate 16 [NVMCTRL_CMD_PBC, NVMCTRL_CMD_WP]))) \<and>
    block_writes (trace w') = block_writes (trace w) @
      map (\<lambda>i. (offset (target_options w) + of_nat (512 * i),
                 take 512 (drop (512 * i) (file_data (target_options w))))) [0..<16 * R]"
proof -
  have "16 * R \<le> length (file_data (target_options w)) div 512"
    using cap by simp
  then obtain w' where run: "target_program T w = Some (Inr w')"
    and wr: "writes (trace w') = writes (trace w) @
      program_writes (offset (target_options w)) (file_data (target_options w)) R"
    using target_program_run [OF resp stable_True unlocked sz R] by auto
  have "commands (writes (trace w')) = commands (writes (trace w)) @
      commands (program_writes (offset (target_options w)) (file_data (target_options w)) R)"
    unfolding wr by simp
  moreover have "block_writes (writes (trace w')) = block_writes (writes (trace w)) @
      block_writes (program_writes (offset (target_options w)) (file_data (target_options w)) R)"
    unfolding wr by simp
  ultimately show ?thesis
    using run unfolding commands_writes block_writes_writes commands_program block_writes_program
    by blast
qed

lemma block_writes_quiet:
  assumes "writes (trace w1) = writes (trace w) @ evs" and "block_writes evs = bs"
  shows "block_writes (trace w1) = block_writes (trace w) @ bs"
proof -
  have "block_writes (writes (trace w1)) = block_writes (writes (trace w)) @ block_writes evs"
    unfolding assms(1) by simp
  then show ?thesis
    unfolding block_writes_writes assms(2) .
qed

lemma program_pages_fault:
  assumes resp: "responsive T"
  shows "k \<le> 16 \<Longrightarrow> p \<le> length buf div 512 \<Longrightarrow> length buf div 512 < p + k \<Longrightarrow>
    512 * (p + k) \<le> 2 ^ 32 \<Longrightarrow>
    \<exists>w'. program_pages T buf (16 - int k) (base + of_nat (512 * p), of_nat (512 * p), w) =
            Some (Inl (BufferOverrun (512 * (length buf div 512)) 512, w')) \<and>
          block_writes (trace w') = block_writes (trace w) @
            map (\<lambda>i. (base + of_nat (512 * i), take 512 (drop (512 * i) buf)))
              [p..<length buf div 512]"
proof (induction k arbitrary: p w)
  case 0
  then show ?case
    by simp
next
  case (Suc k)
  define page where "page = 16 - int (Suc k)"
  define offs :: u32 where "offs = word_of_nat (512 * p)"
  define addr :: u32 where "addr = base + offs"
  define offs' :: u32 where "offs' = word_of_nat (512 * (p + 1))"
  define addr' :: u32 where "addr' = base + offs'"
  define fit where "fit = length buf div 512"
  have page: "page < 16" and page': "page + 1 = 16 - int k"
    by (simp_all add: page_def)
  have "512 * p < (2::nat) ^ 32"
    using Suc.prems(4) by simp
  then have offs: "unat offs = 512 * p"
    unfolding offs_def by (rule unat_of_nat_u32)
  have next_offs: "offs + FLASH_PAGE_SIZE = offs'" "addr + FLASH_PAGE_SIZE = addr'"
    unfolding addr_def addr'_def offs_def offs'_def by (simp_all only: page_offset_next)
  obtain w1 where w1: "wait_ready T (dap_write_word T NVMCTRL_CTRLB NVMCTRL_CMD_PBC
           (dap_write_word T NVMCTRL_ADDR addr w)) = Some w1"
    and tr1: "writes (trace w1) =
      writes (trace w) @ [WriteWord NVMCTRL_ADDR addr, WriteWord NVMCTRL_CTRLB NVMCTRL_CMD_PBC]"
    using wait_ready_run [OF resp stable_True, of "dap_write_word T NVMCTRL_CTRLB NVMCTRL_CMD_PBC
           (dap_write_word T NVMCTRL_ADDR addr w)"] by auto
  have b1: "block_writes (trace w1) = block_writes (trace w) @ []"
    using tr1 by (rule block_writes_quiet) simp
  show ?case
    unfolding offs_def [symmetric] addr_def [symmetric] page_def [symmetric] fit_def [symmetric]
  proof (cases "p < fit")
    case False
    then have fit: "p = fit"
      using Suc.prems(2) by (simp add: fit_def)
    then have "\<not> 512 * p + 512 \<le> length buf"
      by (simp add: fit_def)
    then have "slice buf (unat offs) 512 = None"
      by (simp add: slice_def offs)
    then have "program_pages T buf page (addr, offs, w) =
        Some (Inl (BufferOverrun (512 * fit) 512, w1))"
      using program_pages_overrun [OF page w1] by (simp add: offs fit)
    then show "\<exists>w'. program_pages T buf page (addr, offs, w) =
            Some (Inl (BufferOverrun (512 * fit) 512, w')) \<and>
          block_writes (trace w') = block_writes (trace w) @
            map (\<lambda>i. (base + of_nat (512 * i), take 512 (drop (512 * i) buf))) [p..<fit]"
      using b1 fit by simp
  next
    case True
    then have "512 * p + 512 \<le> length buf"
      by (simp add: fit_def)
    then have sl: "slice buf (unat offs) 512 = Some (take 512 (drop (512 * p) buf))"
      by (simp add: slice_def offs)
    obtain w2 where w2: "wait_ready T (dap_write_word T NVMCTRL_CTRLB NVMCTRL_CMD_WP
           (dap_write_block T addr (take 512 (drop (512 * p) buf)) w1)) = Some w2"
      and tr2: "writes (trace w2) = writes (trace w) @ page_writes base buf p"
      using wait_ready_run [OF resp stable_True, of "dap_write_word T NVMCTRL_CTRLB NVMCTRL_CMD_WP
           (dap_write_block T addr (take 512 (drop (512 * p) buf)) w1)"]
      by (auto simp add: tr1 page_writes_def addr_def offs_def)
    have b2: "block_writes (trace w2) = block_writes (trace w) @
        [(base + of_nat (512 * p), take 512 (drop (512 * p) buf))]"
      using tr2 by (rule block_writes_quiet) (simp add: page_writes_def)
    have step: "program_pages T buf page (addr, offs, w) =
        program_pages T buf (16 - int k) (addr', offs', w2)"
      using program_pages_next [OF page w1 sl w2] by (simp only: next_offs page')
    have "\<exists>w'. program_pages T buf (16 - int k)
                (base + of_nat (512 * (p + 1)), of_nat (512 * (p + 1)), w2) =
            Some (Inl (BufferOverrun (512 * (length buf div 512)) 512, w')) \<and>
          block_writes (trace w') = block_writes (trace w2) @
            map (\<lambda>i. (base + of_nat (512 * i), take 512 (drop (512 * i) buf)))
              [p + 1..<length buf div 512]"
      using Suc.prems True by (intro Suc.IH) (simp_all add: fit_def)
    then obtain w' where ih: "program_pages T buf (16 - int k) (addr', offs', w2) =
            Some (Inl (BufferOverrun (512 * fit) 512, w'))"
      and b: "block_writes (trace w') = block_writes (trace w2) @
            map (\<lambda>i. (base + of_nat (512 * i), take 512 (drop (512 * i) buf))) [p + 1..<fit]"
      unfolding addr'_def offs'_def fit_def by blast
    have upt: "[p..<fit] = p # [p + 1..<fit]"
      using True by (simp add: upt_conv_Cons)
    have "block_writes (trace w') = block_writes (trace w) @
            map (\<lambda>i. (base + of_nat (512 * i), take 512 (drop (512 * i) buf))) [p..<fit]"
      unfolding b b2 upt by simp
    then show "\<exists>w'. program_pages T buf page (addr, offs, w) =
            Some (Inl (BufferOverrun (512 * fit) 512, w')) \<and>
          block_writes (trace w') = block_writes (trace w) @
            map (\<lambda>i. (base + of_nat (512 * i), take 512 (drop (512 * i) buf))) [p..<fit]"
      using ih unfolding step by blast
  qed
qed

lemma program_rows_fault:
  assumes resp: "responsive T" and R: "8192 * R \<le> 2 ^ 32"
  shows "k \<le> R \<Longrightarrow> 16 * (R - k) \<le> length buf div 512 \<Longrightarrow> length buf div 512 < 16 * R \<Longrightarrow>
    \<exists>w'. program_rows T buf (of_nat R) (of_nat (R - k))
                (base + of_nat (8192 * (R - k)), of_nat (8192 * (R - k)), w) =
            Some (Inl (BufferOverrun (512 * (length buf div 512)) 512, w')) \<and>
          block_writes (trace w') = block_writes (trace w) @
            map (\<lambda>i. (base + of_nat (512 * i), take 512 (drop (512 * i) buf)))
              [16 * (R - k)..<length buf div 512]"
proof (induction k arbitrary: w)
  case 0
  then show ?case
    by simp
next
  case (Suc k)
  define r where "r = R - Suc k"
  define n :: u32 where "n = word_of_nat R"
  define row :: u32 where "row = word_of_nat r"
  define offs :: u32 where "offs = word_of_nat (8192 * r)"
  define addr :: u32 where "addr = base + offs"
  define offs' :: u32 where "offs' = word_of_nat (8192 * (r + 1))"
  define addr' :: u32 where "addr' = base + offs'"
  define fit where "fit = length buf div 512"
  have r: "r < R" "R - k = r + 1" "16 * r \<le> fit"
    using Suc.prems by (simp_all add: r_def fit_def)
  have "R < 2 ^ 32"
    using R by simp
  then have "unat n = R" "unat row = r"
    using r(1) unfolding n_def row_def by (simp_all add: unat_of_nat_u32)
  then have row: "row < n"
    using r(1) by (simp add: word_less_nat_alt)
  have row': "row + 1 = word_of_nat (R - k)"
    unfolding row_def r(2) by (simp only: row_offset)
  obtain w1 where w1: "wait_ready T (dap_write_word T NVMCTRL_CTRLB NVMCTRL_CMD_UR
           (dap_write_word T NVMCTRL_ADDR addr w)) = Some w1"
    and tr1: "writes (trace w1) =
      writes (trace w) @ [WriteWord NVMCTRL_ADDR addr, WriteWord NVMCTRL_CTRLB NVMCTRL_CMD_UR]"
    using wait_ready_run [OF resp stable_True, of "dap_write_word T NVMCTRL_CTRLB NVMCTRL_CMD_UR
           (dap_write_word T NVMCTRL_ADDR addr w)"] by auto
  obtain w2 where w2: "wait_ready T (dap_write_word T NVMCTRL_CTRLB NVMCTRL_CMD_EB w1) = Some w2"
    and tr2: "writes (trace w2) =
      writes (trace w) @ [WriteWord NVMCTRL_ADDR addr, WriteWord NVMCTRL_CTRLB NVMCTRL_CMD_UR,
        WriteWord NVMCTRL_CTRLB NVMCTRL_CMD_EB]"
    using wait_ready_run [OF resp stable_True, of "dap_write_word T NVMCTRL_CTRLB NVMCTRL_CMD_EB w1"]
    by (auto simp add: tr1)
  have b2: "block_writes (trace w2) = block_writes (trace w) @ []"
    using tr2 by (rule block_writes_quiet) simp
  have sixteen: "16 - int 16 = 0"
    by simp
  have room: "512 * (16 * r + 16) \<le> (2::nat) ^ 32"
    using R r(1) by simp
  show ?case
    unfolding r_def [symmetric] n_def [symmetric] row_def [symmetric] offs_def [symmetric]
      addr_def [symmetric] fit_def [symmetric]
  proof (cases "16 * r + 16 \<le> fit")
    case False
    have "\<exists>w'. program_pages T buf (16 - int 16)
                (base + of_nat (512 * (16 * r)), of_nat (512 * (16 * r)), w2) =
            Some (Inl (BufferOverrun (512 * (length buf div 512)) 512, w')) \<and>
          block_writes (trace w') = block_writes (trace w2) @
            map (\<lambda>i. (base + of_nat (512 * i), take 512 (drop (512 * i) buf)))
              [16 * r..<length buf div 512]"
      using r(3) False room by (intro program_pages_fault [OF resp]) (simp_all add: fit_def)
    then obtain w3 where pages: "program_pages T buf 0 (addr, offs, w2) =
            Some (Inl (BufferOverrun (512 * fit) 512, w3))"
      and b3: "block_writes (trace w3) = block_writes (trace w) @
            map (\<lambda>i. (base + of_nat (512 * i), take 512 (drop (512 * i) buf))) [16 * r..<fit]"
      unfolding row_offset addr_def offs_def fit_def b2 sixteen append_Nil2 by blast
    have "program_rows T buf n row (addr, offs, w) =
        Some (Inl (BufferOverrun (512 * fit) 512, w3))"
      using pages by (rule program_rows_overrun [OF row w1 w2])
    then show "\<exists>w'. program_rows T buf n row (addr, offs, w) =
            Some (Inl (BufferOverrun (512 * fit) 512, w')) \<and>
          block_writes (trace w') = block_writes (trace w) @
            map (\<lambda>i. (base + of_nat (512 * i), take 512 (drop (512 * i) buf))) [16 * r..<fit]"
      using b3 by blast
  next
    case True
    have "\<exists>w'. (if 16 * r + 16 \<le> length buf div 512 then
            program_pages T buf (16 - int 16)
                (base + of_nat (512 * (16 * r)), of_nat (512 * (16 * r)), w2) =
              Some (Inr (base + of_nat (512 * (16 * r + 16)), of_nat (512 * (16 * r + 16)), w')) \<and>
            writes (trace w') =
              writes (trace w2) @ concat (map (page_writes base buf) [16 * r..<16 * r + 16]) \<and>
            target_options w' = target_options w2 \<and> target_device w' = target_device w2 \<and>
            (True \<longrightarrow> True)
          else
            program_pages T buf (16 - int 16)
                (base + of_nat (512 * (16 * r)), of_nat (512 * (16 * r)), w2) =
              Some (Inl (BufferOverrun (512 * (length buf div 512)) 512, w')))"
      using r(3) room by (intro program_pages_run [OF resp stable_True]) (simp_all add: fit_def)
    then obtain w3 where ok: "program_pages T buf 0 (addr, offs, w2) = Some (Inr (addr', offs', w3))"
      and tr3: "writes (trace w3) =
        writes (trace w2) @ concat (map (page_writes base buf) [16 * r..<16 * r + 16])"
      using True
      unfolding row_offset addr_def addr'_def offs_def offs'_def fit_def sixteen
      by auto
    have "block_writes (trace w3) = block_writes (trace w2) @
        map (\<lambda>i. (base + of_nat (512 * i), take 512 (drop (512 * i) buf))) [16 * r..<16 * r + 16]"
      using tr3 by (rule block_writes_quiet) (rule block_writes_pages)
    then have b3: "block_writes (trace (log VerboseDot w3)) = block_writes (trace w) @
        map (\<lambda>i. (base + of_nat (512 * i), take 512 (drop (512 * i) buf))) [16 * r..<16 * r + 16]"
      unfolding b2 by simp
    have step: "program_rows T buf n row (addr, offs, w) =
        program_rows T buf n (word_of_nat (R - k)) (addr', offs', log VerboseDot w3)"
      using program_rows_next [OF row w1 w2 ok] by (simp only: row')
    have "\<exists>w'. program_rows T buf (of_nat R) (of_nat (R - k))
                (base + of_nat (8192 * (R - k)), of_nat (8192 * (R - k)), log VerboseDot w3) =
            Some (Inl (BufferOverrun (512 * (length buf div 512)) 512, w')) \<and>
          block_writes (trace w') = block_writes (trace (log VerboseDot w3)) @
            map (\<lambda>i. (base + of_nat (512 * i), take 512 (drop (512 * i) buf)))
              [16 * (R - k)..<length buf div 512]"
      using Suc.prems True r by (intro Suc.IH) (simp_all add: fit_def)
    then obtain w' where ih: "program_rows T buf n (of_nat (R - k)) (addr', offs', log VerboseDot w3) =
            Some (Inl (BufferOverrun (512 * fit) 512, w'))"
      and b: "block_writes (trace w') = block_writes (trace (log VerboseDot w3)) @
            map (\<lambda>i. (base + of_nat (512 * i), take 512 (drop (512 * i) buf)))
              [16 * (r + 1)..<fit]"
      unfolding addr'_def offs'_def n_def fit_def r(2) by blast
    have e: "16 * (r + 1) = 16 * r + 16"
      by simp
    have f: "16 * r + 16 + (fit - (16 * r + 16)) = fit"
      using True by (rule le_add_diff_inverse)
    have "[16 * r..<16 * r + 16 + (fit - (16 * r + 16))] =
        [16 * r..<16 * r + 16] @ [16 * r + 16..<16 * r + 16 + (fit - (16 * r + 16))]"
      by (rule upt_add_eq_append) simp
    then have split: "[16 * r..<fit] = [16 * r..<16 * r + 16] @ [16 * r + 16..<fit]"
      unfolding f .
    have "block_writes (trace w') = block_writes (trace w) @
            map (\<lambda>i. (base + of_nat (512 * i), take 512 (drop (512 * i) buf))) [16 * r..<fit]"
      unfolding b b3 e split by (simp only: map_append append_assoc)
    then show "\<exists>w'. program_rows T buf n row (addr, offs, w) =
            Some (Inl (BufferOverrun (512 * fit) 512, w')) \<and>
          block_writes (trace w') = block_writes (trace w) @
            map (\<lambda>i. (base + of_nat (512 * i), take 512 (drop (512 * i) buf))) [16 * r..<fit]"
      using ih unfolding step by blast
  qed
qed

lemma target_program_fault:
  assumes resp: "responsive T"
    and unlocked: "fst (read_word T DSU_CTRL_STATUS (dev w)) AND DSU_STATUSB_PROT = 0"
    and sz: "unat (file_size (target_options w)) + 8191 < 2 ^ 32"
    and R: "R = (unat (file_size (target_options w)) + 8191) div 8192"
    and cap: "length (file_data (target_options w)) < 8192 * R"
  shows "\<exists>w'. target_program T w =
      Some (Inl (BufferOverrun (512 * (length (file_data (target_options w)) div 512)) 512, w')) \<and>
    block_writes (trace w') = block_writes (trace w) @
      map (\<lambda>i. (offset (target_options w) + of_nat (512 * i),
                 take 512 (drop (512 * i) (file_data (target_options w)))))
        [0..<length (file_data (target_options w)) div 512]"
proof -
  define w2 where
    "w2 = dap_write_word T NVMCTRL_CTRLA 0xc0c4 (snd (dap_read_word T DSU_CTRL_STATUS w))"
  define buf where "buf = file_data (target_options w)"
  define base where "base = offset (target_options w)"
  have b2: "block_writes (trace w2) = block_writes (trace w)"
    by (simp add: w2_def)
  have fit: "length buf div 512 < 16 * R"
    using cap by (simp add: pages_div buf_def)
  have "8192 * R \<le> 2 ^ 32"
    using sz unfolding R by simp
  then have "\<exists>w'. program_rows T buf (of_nat R) (of_nat (R - R))
                (base + of_nat (8192 * (R - R)), of_nat (8192 * (R - R)), w2) =
            Some (Inl (BufferOverrun (512 * (length buf div 512)) 512, w')) \<and>
          block_writes (trace w') = block_writes (trace w2) @
            map (\<lambda>i. (base + of_nat (512 * i), take 512 (drop (512 * i) buf)))
              [16 * (R - R)..<length buf div 512]"
    using fit by (intro program_rows_fault [OF resp]) simp_all
  moreover have "R - R = 0" "8192 * (0::nat) = 0" "16 * (0::nat) = 0" "word_of_nat 0 = (0::u32)"
    "base + 0 = base"
    by simp_all
  ultimately have "\<exists>w'. program_rows T buf (of_nat R) 0 (base, 0, w2) =
            Some (Inl (BufferOverrun (512 * (length buf div 512)) 512, w')) \<and>
          block_writes (trace w') = block_writes (trace w) @
            map (\<lambda>i. (base + of_nat (512 * i), take 512 (drop (512 * i) buf)))
              [0..<length buf div 512]"
    by (simp only: b2)
  then show ?thesis
    unfolding target_program_unlocked [OF unlocked] number_of_rows [OF sz] R [symmetric]
      w2_def [symmetric] buf_def [symmetric] base_def [symmetric] .
qed

subsection \<open>Rows and pages\<close>

lemma session0_simps [simp]:
  "trace (session0 buf n) = []"
  "file_data (target_options (session0 buf n)) = buf"
  "file_size (target_options (session0 buf n)) = n"
  "size_opt (target_options (session0 buf n)) = n"
  "offset (target_options (session0 buf n)) = 0"
  "file_name (target_options (session0 buf n)) = ''image.bin''"
  "flash (dev (session0 buf n)) = (\<lambda>x. 0xff)"
  by (simp_all add: session0_def world0_def options0_def chip0_def)

lemma session0_unlocked:
  "fst (read_word chip_transport DSU_CTRL_STATUS (dev (session0 buf n))) AND DSU_STATUSB_PROT = 0"
  unfolding session0_def by (rule chip_unlocked)

text \<open>
  C1, as the claim states it, fails: for an image of 512 bytes in a buffer of one row,
  \<^verbatim>\<open>target_program\<close> makes 16 block writes, and \<open>ceil(512 / 512)\<close> is 1.
\<close>

theorem program_page_count_counterexample:
  "block_write_count (target_program chip_transport (session0 (replicate 8192 0xff) 512)) = Some 16
   \<and> ((512::nat) + 511) div 512 = 1"
proof -
  obtain w' where "target_program chip_transport (session0 (replicate 8192 0xff) 512) = Some (Inr w')"
    and "block_writes (trace w') = block_writes (trace (session0 (replicate 8192 0xff) 512)) @
      map (\<lambda>i. (offset (target_options (session0 (replicate 8192 0xff) 512)) + of_nat (512 * i),
                 take 512 (drop (512 * i)
                   (file_data (target_options (session0 (replicate 8192 0xff) 512))))))
        [0..<16 * 1]"
    using program_returns [OF responsive_chip session0_unlocked, of "replicate 8192 0xff" 512 1]
    by auto
  then show ?thesis
    by (simp add: block_write_count_def)
qed

text \<open>
  C1, amended. For an image of \<open>L\<close> bytes in a buffer that holds the \<open>R = ceil(L / 8192)\<close>
  rows it lies in, on a chip that is not locked and that shows its ready flag,
  \<^verbatim>\<open>target_program\<close> returns; it has issued \<open>R\<close> times the commands unlock-region, then
  erase-block, then 16 times page-buffer-clear and write-page; and it has made
  \<open>16 * R\<close> block writes, the one with index \<open>i\<close> of the 512 bytes of the buffer from
  \<open>512 * i\<close> on to the address \<open>offset + 512 * i\<close>, whatever the offset is. When the
  rows end inside the address space, that is when \<open>offset + 8192 * R \<le> 2 ^ 32\<close>, these
  addresses do not wrap: they go up by 512 from one write to the next.
\<close>

theorem program_rows_and_pages:
  assumes "responsive T"
    and "fst (read_word T DSU_CTRL_STATUS (dev w)) AND DSU_STATUSB_PROT = 0"
    and "L = unat (file_size (target_options w))" and "L + 8191 < 2 ^ 32"
    and "R = (L + 8191) div 8192"
    and "8192 * R \<le> length (file_data (target_options w))"
  shows "\<exists>w'. target_program T w = Some (Inr w') \<and>
    count_list (commands (trace w')) NVMCTRL_CMD_UR =
      count_list (commands (trace w)) NVMCTRL_CMD_UR + R \<and>
    count_list (commands (trace w')) NVMCTRL_CMD_EB =
      count_list (commands (trace w)) NVMCTRL_CMD_EB + R \<and>
    commands (trace w') = commands (trace w) @
      concat (replicate R ([NVMCTRL_CMD_UR, NVMCTRL_CMD_EB] @
        concat (replicate 16 [NVMCTRL_CMD_PBC, NVMCTRL_CMD_WP]))) \<and>
    block_writes (trace w') = block_writes (trace w) @
      map (\<lambda>i. (offset (target_options w) + of_nat (512 * i),
                 take 512 (drop (512 * i) (file_data (target_options w))))) [0..<16 * R] \<and>
    (unat (offset (target_options w)) + 8192 * R \<le> 2 ^ 32 \<longrightarrow>
      (\<forall>i<16 * R. unat (offset (target_options w) + of_nat (512 * i)) =
         unat (offset (target_options w)) + 512 * i))"
proof -
  obtain w' where run: "target_program T w = Some (Inr w')"
    and c: "commands (trace w') = commands (trace w) @
      concat (replicate R ([NVMCTRL_CMD_UR, NVMCTRL_CMD_EB] @
        concat (replicate 16 [NVMCTRL_CMD_PBC, NVMCTRL_CMD_WP])))"
    and b: "block_writes (trace w') = block_writes (trace w) @
      map (\<lambda>i. (offset (target_options w) + of_nat (512 * i),
                 take 512 (drop (512 * i) (file_data (target_options w))))) [0..<16 * R]"
    using program_returns [OF assms(1,2) assms(4) [unfolded assms(3)] assms(5) [unfolded assms(3)]
        assms(6)]
    by blast
  have ur: "count_list (commands (trace w')) NVMCTRL_CMD_UR =
      count_list (commands (trace w)) NVMCTRL_CMD_UR + R"
    and eb: "count_list (commands (trace w')) NVMCTRL_CMD_EB =
      count_list (commands (trace w)) NVMCTRL_CMD_EB + R"
    by (simp_all add: c count_list_append count_list_concat_replicate command_defs)
  have "unat (offset (target_options w) + of_nat (512 * i)) =
       unat (offset (target_options w)) + 512 * i"
    if "unat (offset (target_options w)) + 8192 * R \<le> 2 ^ 32" and "i < 16 * R" for i
    using that by (intro unat_page_address) simp
  then show ?thesis
    using run ur eb c b by blast
qed

theorem program_rows_and_pages_witness:
  "responsive chip_transport \<and>
   fst (read_word chip_transport DSU_CTRL_STATUS (dev (session0 (replicate 8192 0xff) 512)))
     AND DSU_STATUSB_PROT = 0 \<and>
   (512::nat) = unat (file_size (target_options (session0 (replicate 8192 0xff) 512))) \<and>
   (512::nat) + 8191 < 2 ^ 32 \<and> (1::nat) = (512 + 8191) div 8192 \<and>
   8192 * 1 \<le> length (file_data (target_options (session0 (replicate 8192 0xff) 512))) \<and>
   unat (offset (target_options (session0 (replicate 8192 0xff) 512))) + 8192 * 1 \<le> 2 ^ 32 \<and>
   (\<exists>w'. target_program chip_transport (session0 (replicate 8192 0xff) 512) = Some (Inr w') \<and>
      count_list (commands (trace w')) NVMCTRL_CMD_UR = 1 \<and>
      count_list (commands (trace w')) NVMCTRL_CMD_EB = 1 \<and>
      map fst (block_writes (trace w')) = map (\<lambda>i. of_nat (512 * i)) [0..<16] \<and>
      (\<forall>i<16. unat (offset (target_options (session0 (replicate 8192 0xff) 512))
          + of_nat (512 * i) :: u32) = 512 * i))"
proof -
  have 3: "(512::nat) = unat (file_size (target_options (session0 (replicate 8192 0xff) 512)))"
    and 4: "(512::nat) + 8191 < 2 ^ 32" and 5: "(1::nat) = (512 + 8191) div 8192"
    and 6: "8192 * 1 \<le> length (file_data (target_options (session0 (replicate 8192 0xff) 512)))"
    and 7: "unat (offset (target_options (session0 (replicate 8192 0xff) 512))) + 8192 * 1
      \<le> 2 ^ 32"
    by simp_all
  show ?thesis
    using program_rows_and_pages [OF responsive_chip session0_unlocked 3 4 5 6] 7
      responsive_chip session0_unlocked [of "replicate 8192 0xff" 512]
    by (auto simp add: comp_def)
qed

lemma whole_rows: "(L::nat) mod 8192 = 0 \<longleftrightarrow> 8192 * ((L + 8191) div 8192) \<le> L"
proof
  assume "L mod 8192 = 0"
  then obtain q where "L = 8192 * q"
    by (auto simp add: mod_eq_0_iff_dvd)
  then show "8192 * ((L + 8191) div 8192) \<le> L"
    by simp
next
  assume "8192 * ((L + 8191) div 8192) \<le> L"
  then have "L = 8192 * ((L + 8191) div 8192)"
    using rows_cover [of L] by simp
  then have "8192 dvd L"
    by (rule dvdI)
  then show "L mod 8192 = 0"
    by simp
qed

lemma page_past_end: "(L::nat) < 512 * (L div 512) + 512"
proof -
  have "L mod 512 < 512"
    by simp
  moreover have "512 * (L div 512) + L mod 512 = L"
    by simp
  ultimately show ?thesis
    by linarith
qed

lemma rows_of_part:
  assumes "(L::nat) mod 8192 \<noteq> 0"
  shows "(L + 8191) div 8192 = L div 8192 + 1"
proof -
  define q where "q = L div 8192"
  define r where "r = L mod 8192"
  have L: "L = 8192 * q + r"
    by (simp add: q_def r_def)
  have r: "0 < r" "r < 8192"
    using assms by (simp_all add: r_def)
  then obtain r' where r': "r = r' + 1" "r' < 8191"
    by (cases r) simp_all
  have "L + 8191 = r' + 8192 * (q + 1)"
    using L r' by simp
  then have "(L + 8191) div 8192 = r' div 8192 + (q + 1)"
    by (simp only: div_mult_self2)
  then show ?thesis
    using r'(2) by (simp add: q_def)
qed

lemma final_row_page:
  assumes "(L::nat) mod 8192 \<noteq> 0"
  shows "16 * ((L + 8191) div 8192 - 1) \<le> L div 512 \<and> L div 512 < 16 * ((L + 8191) div 8192)"
proof -
  define m where "m = L div 512"
  have "L div 8192 = m div 16"
    using div_mult2_eq [of L 512 16] by (simp add: m_def)
  then have R: "(L + 8191) div 8192 = m div 16 + 1"
    using rows_of_part [OF assms] by simp
  have "m mod 16 < 16" "16 * (m div 16) + m mod 16 = m"
    by simp_all
  then have "16 * (m div 16) \<le> m \<and> m < 16 * (m div 16) + 16"
    by linarith
  then show ?thesis
    unfolding R m_def [symmetric] by simp
qed

text \<open>
  C10, as the claim states it, fails: on a chip that is locked, for an image of 4 bytes
  in a buffer of 4 bytes, \<^verbatim>\<open>target_program\<close> exits with the device-locked error and has
  made no block write.
\<close>

theorem program_reads_past_image_counterexample:
  "length [1, 2, 3, 4 :: u8] mod 8192 \<noteq> 0 \<and>
   (\<exists>w'. target_program chip_transport
      (world0 (chip0 0x61840000 True) (devices ! 0) (options0 [1, 2, 3, 4] 4))
        = Some (Inl (DeviceLocked, w')) \<and> block_writes (trace w') = [])"
  by (simp add: target_program_def dap_read_word_def log_def chip_transport_def
      world0_def chip0_def register_defs Let_def block_writes_def List.map_filter_simps)

text \<open>
  C10, amended. For an image of \<open>L\<close> bytes, with \<open>L + 8191 < 2 ^ 32\<close>, in a buffer of
  exactly \<open>L\<close> bytes, on a chip that is not locked and that shows its ready flag: when
  \<open>L\<close> is a multiple of 8192, \<^verbatim>\<open>target_program\<close> returns, and its block writes are those
  of the \<open>L div 512\<close> pages of the buffer, each read inside the buffer; otherwise it
  makes the block writes of the pages below \<open>L div 512\<close> and then reaches the call of
  \<^verbatim>\<open>dap_write_block\<close> for the 512 bytes of the buffer from \<open>512 * (L div 512)\<close> on, which
  end past the \<open>L\<close> bytes that the buffer has; that page is one of the 16 pages of the last
  row. What the C code does from that access on is undefined, and nothing is stated of it.
\<close>

theorem program_reads_past_image:
  assumes "responsive T"
    and "fst (read_word T DSU_CTRL_STATUS (dev w)) AND DSU_STATUSB_PROT = 0"
    and "L = unat (file_size (target_options w))" and "L + 8191 < 2 ^ 32"
    and "length (file_data (target_options w)) = L"
  shows "if L mod 8192 = 0
    then \<exists>w'. target_program T w = Some (Inr w') \<and>
      block_writes (trace w') = block_writes (trace w) @
        map (\<lambda>i. (offset (target_options w) + of_nat (512 * i),
                   take 512 (drop (512 * i) (file_data (target_options w))))) [0..<L div 512]
    else \<exists>w'. target_program T w = Some (Inl (BufferOverrun (512 * (L div 512)) 512, w')) \<and>
      block_writes (trace w') = block_writes (trace w) @
        map (\<lambda>i. (offset (target_options w) + of_nat (512 * i),
                   take 512 (drop (512 * i) (file_data (target_options w))))) [0..<L div 512] \<and>
      L < 512 * (L div 512) + 512 \<and>
      16 * ((L + 8191) div 8192 - 1) \<le> L div 512 \<and> L div 512 < 16 * ((L + 8191) div 8192)"
proof (cases "L mod 8192 = 0")
  case True
  then have cap: "8192 * ((L + 8191) div 8192) \<le> length (file_data (target_options w))"
    using assms(5) by (simp only: whole_rows)
  then have "L = 8192 * ((L + 8191) div 8192)"
    using rows_cover [of L] assms(5) by simp
  then have "L div 512 = 16 * ((L + 8191) div 8192)"
    by simp
  then show ?thesis
    using True program_returns [OF assms(1,2) assms(4) [unfolded assms(3)] _ cap [unfolded assms(3)]]
    unfolding assms(3) by auto
next
  case False
  then have "length (file_data (target_options w)) < 8192 * ((L + 8191) div 8192)"
    using assms(5) by (simp only: whole_rows not_le)
  then have "\<exists>w'. target_program T w =
      Some (Inl (BufferOverrun (512 * (length (file_data (target_options w)) div 512)) 512, w')) \<and>
    block_writes (trace w') = block_writes (trace w) @
      map (\<lambda>i. (offset (target_options w) + of_nat (512 * i),
                 take 512 (drop (512 * i) (file_data (target_options w)))))
        [0..<length (file_data (target_options w)) div 512]"
    unfolding assms(3)
    by (intro target_program_fault [OF assms(1,2) assms(4) [unfolded assms(3)]]) simp_all
  then have "\<exists>w'. target_program T w = Some (Inl (BufferOverrun (512 * (L div 512)) 512, w')) \<and>
    block_writes (trace w') = block_writes (trace w) @
      map (\<lambda>i. (offset (target_options w) + of_nat (512 * i),
                 take 512 (drop (512 * i) (file_data (target_options w))))) [0..<L div 512]"
    unfolding assms(5) .
  then show ?thesis
    using False page_past_end [of L] final_row_page [OF False] by (simp only: if_False) blast
qed

theorem program_reads_past_image_witness:
  "responsive chip_transport \<and>
   fst (read_word chip_transport DSU_CTRL_STATUS (dev (session0 [1, 2, 3, 4] 4)))
     AND DSU_STATUSB_PROT = 0 \<and>
   (4::nat) = unat (file_size (target_options (session0 [1, 2, 3, 4] 4))) \<and>
   (4::nat) + 8191 < 2 ^ 32 \<and>
   length (file_data (target_options (session0 [1, 2, 3, 4] 4))) = 4 \<and>
   (\<exists>w'. target_program chip_transport (session0 [1, 2, 3, 4] 4) =
      Some (Inl (BufferOverrun 0 512, w')) \<and> block_writes (trace w') = [])"
proof -
  have 3: "(4::nat) = unat (file_size (target_options (session0 [1, 2, 3, 4] 4)))"
    and 4: "(4::nat) + 8191 < 2 ^ 32"
    and 5: "length (file_data (target_options (session0 [1, 2, 3, 4] 4))) = 4"
    by simp_all
  show ?thesis
    using program_reads_past_image [OF responsive_chip session0_unlocked 3 4 5]
      responsive_chip session0_unlocked [of "[1, 2, 3, 4]" 4]
    by simp
qed

lemma reads_store_chip: "reads_store chip_transport flash"
  using spy_chip by (simp add: spy_def)

theorem verify_first_mismatch_witness:
  "reads_store chip_transport flash \<and>
   (4::nat) = unat (file_size (target_options (session0 [0xff, 0xff, 3, 4] 4))) \<and>
   (4::nat) \<le> length (file_data (target_options (session0 [0xff, 0xff, 3, 4] 4))) \<and>
   (\<exists>w'. target_verify chip_transport (session0 [0xff, 0xff, 3, 4] 4) =
      Some (Inl (VerificationFailed, w')) \<and>
      trace w' = [BufAlloc 512, ReadBlock 0 512, VerboseMismatch 2 3 0xff, BufFree])"
proof -
  have 2: "(4::nat) = unat (file_size (target_options (session0 [0xff, 0xff, 3, 4] 4)))"
    and 3: "(4::nat) \<le> length (file_data (target_options (session0 [0xff, 0xff, 3, 4] 4)))"
    by simp_all
  have "[0..<4] = [0, 1, 2, 3]"
    by (simp add: upt_rec)
  then show ?thesis
    using verify_first_mismatch [OF reads_store_chip 2 3] reads_store_chip
    by (simp add: page_reads_def)
qed

text \<open>
  C7, as the claim states it, fails. On a chip that is not locked, for an image of 4 bytes
  in a buffer of 4 bytes, \<^verbatim>\<open>target_program\<close> does not return: its first block write takes
  512 bytes of the buffer. And on a chip that is locked, for an image of 4 bytes in a
  buffer of one row, \<^verbatim>\<open>target_program\<close> exits with the device-locked error. The
  transport of both is a memory for the block transfers.
\<close>

theorem program_then_verify_counterexample:
  "spy chip_transport flash \<and>
   verdict (target_program chip_transport (session0 [1, 2, 3, 4] 4))
     = Some (Inl (BufferOverrun 0 512)) \<and>
   verdict (target_program chip_transport
      (world0 (chip0 0x61840000 True) (devices ! 0) (options0 (replicate 8192 7) 4)))
     = Some (Inl DeviceLocked)"
proof -
  have "\<exists>w'. target_program chip_transport (session0 [1, 2, 3, 4] 4) =
      Some (Inl (BufferOverrun (512 * (length (file_data (target_options
        (session0 [1, 2, 3, 4] 4))) div 512)) 512, w')) \<and>
    block_writes (trace w') = block_writes (trace (session0 [1, 2, 3, 4] 4)) @
      map (\<lambda>i. (offset (target_options (session0 [1, 2, 3, 4] 4)) + of_nat (512 * i),
                 take 512 (drop (512 * i) (file_data (target_options (session0 [1, 2, 3, 4] 4))))))
        [0..<length (file_data (target_options (session0 [1, 2, 3, 4] 4))) div 512]"
    by (intro target_program_fault [OF responsive_chip session0_unlocked, where R = 1]) simp_all
  then obtain w' where "target_program chip_transport (session0 [1, 2, 3, 4] 4) =
      Some (Inl (BufferOverrun (512 * (length (file_data (target_options
        (session0 [1, 2, 3, 4] 4))) div 512)) 512, w'))"
    by blast
  then have "verdict (target_program chip_transport (session0 [1, 2, 3, 4] 4))
     = Some (Inl (BufferOverrun 0 512))"
    by (simp add: verdict_def)
  moreover have "verdict (target_program chip_transport
      (world0 (chip0 0x61840000 True) (devices ! 0) (options0 (replicate 8192 7) 4)))
     = Some (Inl DeviceLocked)"
    by (simp add: verdict_def target_program_def dap_read_word_def log_def chip_transport_def
      world0_def chip0_def register_defs Let_def)
  ultimately show ?thesis
    using spy_chip by simp
qed

text \<open>
  C7, amended. Over a transport whose block reads return what its block writes have
  stored, on a chip that is not locked and shows its ready flag, for an image of \<open>L\<close>
  bytes, with \<open>L + 8191 < 2 ^ 32\<close>, in a buffer that holds the \<open>ceil(L / 8192)\<close> rows it
  lies in: \<^verbatim>\<open>target_program\<close> returns, and \<^verbatim>\<open>target_verify\<close> after it returns too; and in
  every state \<open>wf\<close> with the same image and offset whose memory is the memory after
  programming with one byte of the image region, at index \<open>k\<close>, set to another value
  \<open>v\<close>, \<^verbatim>\<open>target_verify\<close> exits with the verification error, and the last it reports is
  the address \<open>offset + k\<close>, the byte of the image and \<open>v\<close>.
\<close>

theorem program_then_verify:
  assumes spy: "spy T store" and resp: "responsive T"
    and unlocked: "fst (read_word T DSU_CTRL_STATUS (dev w)) AND DSU_STATUSB_PROT = 0"
    and L: "L = unat (file_size (target_options w))" and sz: "L + 8191 < 2 ^ 32"
    and cap: "8192 * ((L + 8191) div 8192) \<le> length (file_data (target_options w))"
  shows "\<exists>w1. target_program T w = Some (Inr w1) \<and>
    (\<exists>w2. target_verify T w1 = Some (Inr w2)) \<and>
    (\<forall>k v wf. k < L \<and> v \<noteq> file_data (target_options w) ! k \<and>
        target_options wf = target_options w1 \<and>
        store (dev wf) = (store (dev w1)) (offset (target_options w) + of_nat k := v) \<longrightarrow>
      (\<exists>w3 evs. target_verify T wf = Some (Inl (VerificationFailed, w3)) \<and>
         trace w3 = trace wf @ evs @
           [VerboseMismatch (offset (target_options w) + of_nat k)
              (file_data (target_options w) ! k) v, BufFree]))"
proof -
  define buf where "buf = file_data (target_options w)"
  define base where "base = offset (target_options w)"
  have rs: "reads_store T store"
    using spy by (simp add: spy_def)
  have len: "L \<le> length buf"
    using rows_cover [of L] cap unfolding buf_def by (rule order_trans)
  have L32: "L < 2 ^ 32"
    using sz by simp
  obtain w1 where run: "target_program T w = Some (Inr w1)"
    and o: "target_options w1 = target_options w"
    and mem: "\<forall>k<8192 * ((L + 8191) div 8192). store (dev w1) (base + of_nat k) = buf ! k"
    using program_store [OF spy resp unlocked sz [unfolded L] _ cap [unfolded L]]
    unfolding L buf_def base_def by blast
  have mem': "store (dev w1) (base + of_nat k) = buf ! k" if "k < L" for k
    using mem that rows_cover [of L] by simp
  have "\<exists>w2. target_verify T w1 = Some (Inr w2)"
    using target_verify_equal [OF rs, of L w1] L len mem' unfolding o buf_def base_def by auto
  moreover have "\<exists>w3 evs. target_verify T wf = Some (Inl (VerificationFailed, w3)) \<and>
         trace w3 = trace wf @ evs @ [VerboseMismatch (base + of_nat k) (buf ! k) v, BufFree]"
    if k: "k < L" and v: "v \<noteq> buf ! k" and of: "target_options wf = target_options w1"
      and flip: "store (dev wf) = (store (dev w1)) (base + of_nat k := v)" for k v wf
  proof -
    have at: "store (dev wf) (base + of_nat k) = v"
      unfolding flip by simp
    have before: "store (dev wf) (base + of_nat j) = buf ! j" if "j < k" for j
    proof -
      have "j < 2 ^ 32" "k < 2 ^ 32" "j \<noteq> k"
        using that k L32 by simp_all
      then have "(word_of_nat j :: u32) \<noteq> word_of_nat k"
        using of_nat_u32_inject by blast
      then have "store (dev wf) (base + of_nat j) = store (dev w1) (base + of_nat j)"
        unfolding flip by simp
      then show ?thesis
        using mem' [of j] that k by simp
    qed
    have "\<exists>w'. target_verify T wf = Some (Inl (VerificationFailed, w')) \<and>
      trace w' = trace wf @ [BufAlloc 512] @
        page_reads (offset (target_options wf)) 0 (k div 512) @
        [ReadBlock (offset (target_options wf) + of_nat (512 * (k div 512))) 512,
         VerboseMismatch (offset (target_options wf) + of_nat k) (file_data (target_options wf) ! k)
           (store (dev wf) (offset (target_options wf) + of_nat k)),
         BufFree]"
      using L len k v before unfolding buf_def base_def
      by (intro target_verify_mismatch [OF rs, of L wf k]) (simp_all add: of o at [unfolded base_def])
    then obtain w' where "target_verify T wf = Some (Inl (VerificationFailed, w'))"
      and "trace w' = trace wf @ ([BufAlloc 512] @
        page_reads base 0 (k div 512) @ [ReadBlock (base + of_nat (512 * (k div 512))) 512]) @
        [VerboseMismatch (base + of_nat k) (buf ! k) v, BufFree]"
      unfolding of o buf_def [symmetric] base_def [symmetric] at by auto
    then show ?thesis
      by blast
  qed
  ultimately show ?thesis
    using run unfolding buf_def base_def by blast
qed

theorem program_then_verify_witness:
  "spy chip_transport flash \<and> responsive chip_transport \<and>
   fst (read_word chip_transport DSU_CTRL_STATUS (dev (session0 (replicate 8192 7) 4)))
     AND DSU_STATUSB_PROT = 0 \<and>
   (4::nat) = unat (file_size (target_options (session0 (replicate 8192 7) 4))) \<and>
   (4::nat) + 8191 < 2 ^ 32 \<and>
   8192 * ((4 + 8191) div 8192) \<le> length (file_data (target_options (session0 (replicate 8192 7) 4))) \<and>
   (\<exists>w1. target_program chip_transport (session0 (replicate 8192 7) 4) = Some (Inr w1) \<and>
      (\<exists>w2. target_verify chip_transport w1 = Some (Inr w2)) \<and>
      (\<forall>wf. target_options wf = target_options w1 \<and>
          flash (dev wf) = (flash (dev w1)) (2 := 0) \<longrightarrow>
        (\<exists>w3 evs. target_verify chip_transport wf = Some (Inl (VerificationFailed, w3)) \<and>
           trace w3 = trace wf @ evs @ [VerboseMismatch 2 7 0, BufFree])))"
proof -
  have 4: "(4::nat) = unat (file_size (target_options (session0 (replicate 8192 7) 4)))"
    and 5: "(4::nat) + 8191 < 2 ^ 32"
    and 6: "8192 * ((4 + 8191) div 8192)
      \<le> length (file_data (target_options (session0 (replicate 8192 7) 4)))"
    by simp_all
  obtain w1 where run: "target_program chip_transport (session0 (replicate 8192 7) 4) = Some (Inr w1)"
    and ok: "\<exists>w2. target_verify chip_transport w1 = Some (Inr w2)"
    and flip: "\<forall>k v wf. k < 4 \<and>
        v \<noteq> file_data (target_options (session0 (replicate 8192 7) 4)) ! k \<and>
        target_options wf = target_options w1 \<and>
        flash (dev wf) = (flash (dev w1))
          (offset (target_options (session0 (replicate 8192 7) 4)) + of_nat k := v) \<longrightarrow>
      (\<exists>w3 evs. target_verify chip_transport wf = Some (Inl (VerificationFailed, w3)) \<and>
         trace w3 = trace wf @ evs @
           [VerboseMismatch (offset (target_options (session0 (replicate 8192 7) 4)) + of_nat k)
              (file_data (target_options (session0 (replicate 8192 7) 4)) ! k) v, BufFree])"
    using program_then_verify [OF spy_chip responsive_chip session0_unlocked 4 5 6] by blast
  have "\<exists>w3 evs. target_verify chip_transport wf = Some (Inl (VerificationFailed, w3)) \<and>
           trace w3 = trace wf @ evs @ [VerboseMismatch 2 7 0, BufFree]"
    if "target_options wf = target_options w1" "flash (dev wf) = (flash (dev w1)) (2 := 0)" for wf
    using flip [rule_format, of 2 0 wf] that by simp
  then show ?thesis
    using run ok spy_chip responsive_chip session0_unlocked [of "replicate 8192 7" 4] by auto
qed

subsection \<open>Reading\<close>

lemma read_blocks_done: "read_blocks T addr offs 0 w = Some (Inr w)"
  by (subst read_blocks.simps) simp

lemma read_blocks_unfold:
  assumes "sz \<noteq> 0" and "dap_read_block T addr 512 w = (bytes, w1)"
  shows "read_blocks T addr offs sz w =
    (case store_at (file_data (target_options w1)) (unat offs) bytes of
       None \<Rightarrow> Some (Inl (BufferOverrun (unat offs) 512, w1))
     | Some buf \<Rightarrow>
         read_blocks T (addr + FLASH_PAGE_SIZE) (offs + FLASH_PAGE_SIZE) (sz - FLASH_PAGE_SIZE)
           (log VerboseDot (w1\<lparr>target_options := (target_options w1)\<lparr>file_data := buf\<rparr>\<rparr>)))"
  by (subst read_blocks.simps) (simp add: assms FLASH_PAGE_SIZE_def split: option.splits)

lemma read_blocks_run:
  "512 * (m + n) \<le> length (file_data (target_options w)) \<Longrightarrow> 512 * (m + n) < 2 ^ 32 \<Longrightarrow>
    \<exists>w'. read_blocks T (base + of_nat (512 * m)) (of_nat (512 * m)) (of_nat (512 * n)) w
            = Some (Inr w') \<and>
          trace w' = trace w @ page_reads base m (m + n) \<and>
          length (file_data (target_options w')) = length (file_data (target_options w)) \<and>
          file_name (target_options w') = file_name (target_options w) \<and>
          size_opt (target_options w') = size_opt (target_options w)"
proof (induction n arbitrary: m w)
  case 0
  then show ?case
    by (simp add: read_blocks_done page_reads_empty)
next
  case (Suc n)
  define offs :: u32 where "offs = word_of_nat (512 * m)"
  define addr :: u32 where "addr = base + offs"
  define sz :: u32 where "sz = word_of_nat (512 * Suc n)"
  obtain bytes w1 where r: "dap_read_block T addr 512 w = (bytes, w1)"
    by (cases "dap_read_block T addr 512 w")
  have "bytes = fst (dap_read_block T addr 512 w)"
    using r by simp
  then have bytes: "length bytes = 512"
    by simp
  have "w1 = snd (dap_read_block T addr 512 w)"
    using r by simp
  then have w1: "trace w1 = trace w @ [ReadBlock addr 512]" "target_options w1 = target_options w"
    by simp_all
  define buf where "buf = take (512 * m) (file_data (target_options w)) @ bytes @
    drop (512 * m + 512) (file_data (target_options w))"
  define w2 where
    "w2 = log VerboseDot (w1\<lparr>target_options := (target_options w1)\<lparr>file_data := buf\<rparr>\<rparr>)"
  have offs: "unat offs = 512 * m"
    unfolding offs_def using Suc.prems(2) by (intro unat_of_nat_u32) simp
  have "unat sz = 512 * Suc n"
    unfolding sz_def using Suc.prems(2) by (intro unat_of_nat_u32) simp
  then have nz: "sz \<noteq> 0"
    by auto
  have fits: "512 * m + 512 \<le> length (file_data (target_options w))"
    using Suc.prems(1) by simp
  then have st: "store_at (file_data (target_options w1)) (unat offs) bytes = Some buf"
    by (simp add: store_at_def offs bytes buf_def w1)
  have nxt: "offs + FLASH_PAGE_SIZE = word_of_nat (512 * (m + 1))"
    "addr + FLASH_PAGE_SIZE = base + word_of_nat (512 * (m + 1))"
    unfolding addr_def offs_def by (simp_all only: page_offset_next)
  have rest: "sz - FLASH_PAGE_SIZE = word_of_nat (512 * n)"
    by (simp add: sz_def FLASH_PAGE_SIZE_def)
  have step: "read_blocks T addr offs sz w =
      read_blocks T (base + word_of_nat (512 * (m + 1))) (word_of_nat (512 * (m + 1)))
        (word_of_nat (512 * n)) w2"
    unfolding read_blocks_unfold [OF nz r] st w2_def
    by (simp only: option.case nxt rest)
  have w2: "trace w2 = trace w @ [ReadBlock addr 512, VerboseDot]"
    "length (file_data (target_options w2)) = length (file_data (target_options w))"
    "file_name (target_options w2) = file_name (target_options w)"
    "size_opt (target_options w2) = size_opt (target_options w)"
    using fits by (simp_all add: w2_def buf_def bytes w1)
  have "\<exists>w'. read_blocks T (base + of_nat (512 * (m + 1))) (of_nat (512 * (m + 1)))
            (of_nat (512 * n)) w2 = Some (Inr w') \<and>
          trace w' = trace w2 @ page_reads base (m + 1) ((m + 1) + n) \<and>
          length (file_data (target_options w')) = length (file_data (target_options w2)) \<and>
          file_name (target_options w') = file_name (target_options w2) \<and>
          size_opt (target_options w') = size_opt (target_options w2)"
    using Suc.prems by (intro Suc.IH) (simp_all add: w2(2))
  moreover have "page_reads base m (m + Suc n) =
      [ReadBlock addr 512, VerboseDot] @ page_reads base (m + 1) ((m + 1) + n)"
    unfolding addr_def offs_def by (simp add: page_reads_step)
  ultimately show ?case
    unfolding offs_def [symmetric] addr_def [symmetric] sz_def [symmetric] step w2 by simp
qed

lemma unat_less_page: "unat (sz - 512 :: u32) mod 512 = unat sz mod 512"
proof (cases "unat (512 :: u32) \<le> unat sz")
  case True
  then have "unat (sz - 512) = unat sz - 512"
    by (simp add: unat_sub_if')
  moreover have "(unat sz - 512) mod 512 = unat sz mod 512"
    using True by (simp add: le_mod_geq)
  ultimately show ?thesis
    by simp
next
  case False
  then have e: "unat (sz - 512) = unat sz + 8388607 * 512"
    by (simp add: unat_sub_if')
  have "(unat sz + 8388607 * 512) mod 512 = unat sz mod 512"
    by (rule mod_mult_self1)
  then show ?thesis
    unfolding e .
qed

lemma read_blocks_returns_aligned:
  assumes run: "read_blocks T addr offs sz w = Some (Inr w')"
  shows "unat sz mod 512 = 0"
proof -
  have "\<forall>w'. r = Inr w' \<longrightarrow> unat sz mod 512 = 0" if "read_blocks T addr offs sz w = Some r" for r
    using that
  proof (rule read_blocks.raw_induct
      [where P = "\<lambda>T addr offs sz w r. \<forall>w'. r = Inr w' \<longrightarrow> unat sz mod 512 = 0", rotated])
    fix f :: "'a transport \<Rightarrow> u32 \<Rightarrow> u32 \<Rightarrow> u32 \<Rightarrow> 'a world \<Rightarrow> (error \<times> 'a world + 'a world) option"
      and T addr offs sz w r
    assume ih: "\<And>T addr offs sz w r. f T addr offs sz w = Some r \<Longrightarrow>
        \<forall>w'. r = Inr w' \<longrightarrow> unat sz mod 512 = 0"
      and step: "(if sz \<noteq> 0 then
          case dap_read_block T addr (unat FLASH_PAGE_SIZE) w of
            (bytes, w) \<Rightarrow>
              (case store_at (file_data (target_options w)) (unat offs) bytes of
                 None \<Rightarrow> Some (Inl (BufferOverrun (unat offs) (unat FLASH_PAGE_SIZE), w))
               | Some buf \<Rightarrow>
                   f T (addr + FLASH_PAGE_SIZE) (offs + FLASH_PAGE_SIZE) (sz - FLASH_PAGE_SIZE)
                     (log VerboseDot (w\<lparr>target_options := (target_options w)\<lparr>file_data := buf\<rparr>\<rparr>)))
        else Some (Inr w)) = Some r"
    show "\<forall>w'. r = Inr w' \<longrightarrow> unat sz mod 512 = 0"
    proof (cases "sz = 0")
      case True
      then show ?thesis
        by simp
    next
      case False
      obtain bytes w1 where r: "dap_read_block T addr (unat FLASH_PAGE_SIZE) w = (bytes, w1)"
        by (cases "dap_read_block T addr (unat FLASH_PAGE_SIZE) w")
      show ?thesis
      proof (cases "store_at (file_data (target_options w1)) (unat offs) bytes")
        case None
        then show ?thesis
          using step False r by auto
      next
        case (Some buf)
        then have "f T (addr + FLASH_PAGE_SIZE) (offs + FLASH_PAGE_SIZE) (sz - FLASH_PAGE_SIZE)
            (log VerboseDot (w1\<lparr>target_options := (target_options w1)\<lparr>file_data := buf\<rparr>\<rparr>))
          = Some r"
          using step False r by simp
        then have "\<forall>w'. r = Inr w' \<longrightarrow> unat (sz - FLASH_PAGE_SIZE) mod 512 = 0"
          by (rule ih)
        then show ?thesis
          by (simp add: FLASH_PAGE_SIZE_def unat_less_page)
      qed
    qed
  qed
  then show ?thesis
    using run by blast
qed

lemma target_read_unfold:
  "target_read T w =
    (case read_blocks T (offset (target_options w)) 0 (size_opt (target_options w)) w of
       None \<Rightarrow> None
     | Some (Inl e) \<Rightarrow> Some (Inl e)
     | Some (Inr w) \<Rightarrow>
         (case slice (file_data (target_options w)) 0 (unat (size_opt (target_options w))) of
            None \<Rightarrow> Some (Inl (BufferOverrun 0 (unat (size_opt (target_options w))), w))
          | Some bytes \<Rightarrow> Some (Inr (log (SaveFile (file_name (target_options w)) bytes) w))))"
  by (simp add: target_read_def FLASH_ADDR_def)

text \<open>
  C6, as the claim states it, fails: for a length of 4 bytes and a buffer of 1024 bytes,
  \<^verbatim>\<open>target_read\<close> reads a page, takes 512 from the 4, which leaves \<open>0xfffffe04\<close>, reads the
  next page, and goes on to a third page, which the buffer does not hold. It does not get
  to \<^verbatim>\<open>save_file\<close>.
\<close>

theorem read_unaligned_counterexample:
  "verdict (target_read chip_transport (session0 (replicate 1024 0) 4))
    = Some (Inl (BufferOverrun 1024 512))"
  unfolding target_read_unfold
  apply (subst read_blocks.simps)
  apply (simp add: dap_read_block_def chip_transport_def store_at_def FLASH_PAGE_SIZE_def
      split: prod.splits)
  apply (subst read_blocks.simps)
  apply (simp add: dap_read_block_def chip_transport_def store_at_def FLASH_PAGE_SIZE_def
      split: prod.splits)
  apply (subst read_blocks.simps)
  apply (simp add: dap_read_block_def chip_transport_def store_at_def FLASH_PAGE_SIZE_def
      verdict_def split: prod.splits)
  done

text \<open>
  C6, amended. For a length \<open>L\<close> that the buffer holds: when \<open>L\<close> is a multiple of 512,
  \<^verbatim>\<open>target_read\<close> returns after \<open>L div 512\<close> block reads of 512 bytes, the one with index
  \<open>j\<close> at the address \<open>offset + 512 * j\<close>, each followed by a progress mark, and then one
  call of \<^verbatim>\<open>save_file\<close> with the first \<open>L\<close> bytes of the buffer; when it is not,
  \<^verbatim>\<open>target_read\<close> does not return.
\<close>

theorem read_pages:
  assumes "L = unat (size_opt (target_options w))"
    and "L \<le> length (file_data (target_options w))"
  shows "if L mod 512 = 0
    then \<exists>w'. target_read T w = Some (Inr w') \<and>
      trace w' = trace w @ page_reads (offset (target_options w)) 0 (L div 512) @
        [SaveFile (file_name (target_options w)) (take L (file_data (target_options w')))]
    else \<forall>w'. target_read T w \<noteq> Some (Inr w')"
proof (cases "L mod 512 = 0")
  case True
  define n where "n = L div 512"
  have L: "L = 512 * n"
    using True by (auto simp add: n_def)
  have "unat (size_opt (target_options w)) < 2 ^ 32"
    using unsigned_less [of "size_opt (target_options w)"] by simp
  then have n: "512 * (0 + n) < 2 ^ 32" "512 * (0 + n) \<le> length (file_data (target_options w))"
    using assms L by simp_all
  have "(word_of_nat (unat (size_opt (target_options w))) :: u32) = size_opt (target_options w)"
    by simp
  then have sz: "size_opt (target_options w) = word_of_nat (512 * n)"
    unfolding assms(1) [symmetric] L by (rule sym)
  have "\<exists>w'. read_blocks T (offset (target_options w) + of_nat (512 * 0)) (of_nat (512 * 0))
            (of_nat (512 * n)) w = Some (Inr w') \<and>
          trace w' = trace w @ page_reads (offset (target_options w)) 0 (0 + n) \<and>
          length (file_data (target_options w')) = length (file_data (target_options w)) \<and>
          file_name (target_options w') = file_name (target_options w) \<and>
          size_opt (target_options w') = size_opt (target_options w)"
    using n by (rule read_blocks_run [rotated])
  then obtain w1 where run: "read_blocks T (offset (target_options w)) 0
        (size_opt (target_options w)) w = Some (Inr w1)"
    and tr: "trace w1 = trace w @ page_reads (offset (target_options w)) 0 n"
    and len: "length (file_data (target_options w1)) = length (file_data (target_options w))"
    and nm: "file_name (target_options w1) = file_name (target_options w)"
    and so: "size_opt (target_options w1) = size_opt (target_options w)"
    unfolding sz by auto
  have "slice (file_data (target_options w1)) 0 (unat (size_opt (target_options w1))) =
      Some (take L (file_data (target_options w1)))"
    using assms by (simp add: slice_def so len)
  then have "target_read T w =
      Some (Inr (log (SaveFile (file_name (target_options w)) (take L (file_data (target_options w1))))
        w1))"
    unfolding target_read_unfold run by (simp add: nm)
  then show ?thesis
    using True tr unfolding n_def by auto
next
  case False
  have "target_read T w \<noteq> Some (Inr w')" for w'
  proof
    assume "target_read T w = Some (Inr w')"
    then obtain w1 where "read_blocks T (offset (target_options w)) 0
        (size_opt (target_options w)) w = Some (Inr w1)"
      unfolding target_read_unfold by (auto split: option.splits sum.splits)
    then have "unat (size_opt (target_options w)) mod 512 = 0"
      by (rule read_blocks_returns_aligned)
    then show False
      using False assms(1) by simp
  qed
  then show ?thesis
    using False by simp
qed

theorem read_pages_witness:
  "(1024::nat) = unat (size_opt (target_options (session0 (replicate 1024 0) 1024))) \<and>
   (1024::nat) \<le> length (file_data (target_options (session0 (replicate 1024 0) 1024))) \<and>
   (\<exists>w'. target_read chip_transport (session0 (replicate 1024 0) 1024) = Some (Inr w') \<and>
      trace w' = [ReadBlock 0 512, VerboseDot, ReadBlock 512 512, VerboseDot,
        SaveFile ''image.bin'' (take 1024 (file_data (target_options w')))])"
proof -
  have 1: "(1024::nat) = unat (size_opt (target_options (session0 (replicate 1024 0) 1024)))"
    and 2: "(1024::nat) \<le> length (file_data (target_options (session0 (replicate 1024 0) 1024)))"
    by simp_all
  have "[0..<2] = [0, 1]"
    by (simp add: upt_rec)
  then show ?thesis
    using read_pages [OF 1 2, of chip_transport] by (simp add: page_reads_def)
qed

subsection \<open>Fuses\<close>

declare fuse_write_pages.simps [simp del] fuse_compare.simps [simp del]

lemma fuse_write_pages_done:
  "\<not> i < 32 \<Longrightarrow> fuse_write_pages T buf i (addr, offs, w) = Some (Inr w)"
  by (simp add: fuse_write_pages.simps geometry_defs)

lemma fuse_write_pages_next:
  assumes "i < 32" and "slice buf (unat offs) 16 = Some bytes"
    and "wait_ready T (dap_write_word T NVMCTRL_CTRLB NVMCTRL_CMD_WQW
           (dap_write_block T addr bytes (dap_write_word T NVMCTRL_ADDR USER_ROW_ADDR w))) = Some w1"
  shows "fuse_write_pages T buf i (addr, offs, w) =
    fuse_write_pages T buf (i + 1) (addr + 16, offs + 16, w1)"
  using assms by (simp add: fuse_write_pages.simps [of T buf i] USER_ROW_SIZE_def
      USER_ROW_PAGE_SIZE_def)

lemma fuse_write_pages_run:
  assumes resp: "responsive T" and len: "length buf = 512"
  shows "k \<le> 32 \<Longrightarrow>
    \<exists>w'. fuse_write_pages T buf (32 - int k) (addr, of_nat (16 * (32 - k)), w) = Some (Inr w') \<and>
      target_options w' = target_options w"
proof (induction k arbitrary: addr w)
  case 0
  then show ?case
    by (simp add: fuse_write_pages_done)
next
  case (Suc k)
  define offs :: u32 where "offs = word_of_nat (16 * (32 - Suc k))"
  have i: "32 - int (Suc k) < 32" and i': "32 - int (Suc k) + 1 = 32 - int k"
    by simp_all
  have "16 * (32 - Suc k) < (2::nat) ^ 32"
    by simp
  then have offs: "unat offs = 16 * (32 - Suc k)"
    unfolding offs_def by (rule unat_of_nat_u32)
  have "16 * (32 - Suc k) + 16 \<le> length buf"
    using Suc.prems len by simp
  then have sl: "slice buf (unat offs) 16 = Some (take 16 (drop (16 * (32 - Suc k)) buf))"
    by (simp add: slice_def offs)
  obtain w1 where w1: "wait_ready T (dap_write_word T NVMCTRL_CTRLB NVMCTRL_CMD_WQW
           (dap_write_block T addr (take 16 (drop (16 * (32 - Suc k)) buf))
             (dap_write_word T NVMCTRL_ADDR USER_ROW_ADDR w))) = Some w1"
    and o1: "target_options w1 = target_options w"
    using wait_ready_run [OF resp stable_True, of "dap_write_word T NVMCTRL_CTRLB NVMCTRL_CMD_WQW
           (dap_write_block T addr (take 16 (drop (16 * (32 - Suc k)) buf))
             (dap_write_word T NVMCTRL_ADDR USER_ROW_ADDR w))"] by auto
  have "16 * (32 - Suc k) + 16 = 16 * (32 - k)"
    using Suc.prems by simp
  then have nxt: "offs + 16 = word_of_nat (16 * (32 - k))"
    unfolding offs_def by (metis of_nat_add of_nat_numeral)
  have step: "fuse_write_pages T buf (32 - int (Suc k)) (addr, offs, w) =
      fuse_write_pages T buf (32 - int k) (addr + 16, word_of_nat (16 * (32 - k)), w1)"
    using fuse_write_pages_next [OF i sl w1] by (simp only: i' nxt)
  have "\<exists>w'. fuse_write_pages T buf (32 - int k) (addr + 16, of_nat (16 * (32 - k)), w1)
        = Some (Inr w') \<and> target_options w' = target_options w1"
    using Suc.prems by (intro Suc.IH) simp
  then show ?case
    unfolding offs_def [symmetric] step o1 .
qed

lemma fuse_write_block_run:
  assumes "fuse_write (target_options w) \<longrightarrow> responsive T"
    and "fuse_name (target_options w) = None" and "length buf = 512"
  shows "\<exists>w'. fuse_write_block T sz buf w = Some (Inr w') \<and> target_options w' = target_options w"
proof (cases "fuse_write (target_options w)")
  case False
  then show ?thesis
    by (simp add: fuse_write_block_def)
next
  case True
  then have resp: "responsive T"
    using assms(1) by simp
  define buf' where "buf' = map (apply_value T buf (fuse_value (target_options w))
      (fuse_start (target_options w)) (fuse_end (target_options w))) [0..<length buf]"
  have len: "length buf' = 512"
    using assms(3) by (simp add: buf'_def)
  obtain w1 where w1: "wait_ready T (dap_write_word T NVMCTRL_CTRLB NVMCTRL_CMD_EP
           (dap_write_word T NVMCTRL_ADDR USER_ROW_ADDR w)) = Some w1"
    and o1: "target_options w1 = target_options w"
    using wait_ready_run [OF resp stable_True, of "dap_write_word T NVMCTRL_CTRLB NVMCTRL_CMD_EP
           (dap_write_word T NVMCTRL_ADDR USER_ROW_ADDR w)"] by auto
  obtain w2 where w2: "wait_ready T (dap_write_word T NVMCTRL_CTRLB NVMCTRL_CMD_PBC w1) = Some w2"
    and o2: "target_options w2 = target_options w"
    using wait_ready_run [OF resp stable_True, of "dap_write_word T NVMCTRL_CTRLB NVMCTRL_CMD_PBC w1"]
      o1 by auto
  have "\<exists>w'. fuse_write_pages T buf' (32 - int 32) (USER_ROW_ADDR, of_nat (16 * (32 - 32)), w2)
      = Some (Inr w') \<and> target_options w' = target_options w2"
    by (intro fuse_write_pages_run [OF resp len]) simp
  then obtain w' where "fuse_write_pages T buf' 0 (USER_ROW_ADDR, 0, w2) = Some (Inr w')"
    and "target_options w' = target_options w"
    unfolding o2 by auto
  then show ?thesis
    using True assms(2) w1 w2 by (simp add: fuse_write_block_def buf'_def [symmetric])
qed

lemma target_options_fuse_read_block [simp]:
  "target_options (fuse_read_block T read_all buf w) = target_options w"
  by (simp add: fuse_read_block_def Let_def split: option.splits)

text \<open>
  C9, as the claim states it, fails: a request with the verify flag, no file name and no
  bit range, for the section 1, exits with the unsupported-section error.
\<close>

theorem fuse_section_counterexample:
  "verdict (target_fuse chip_transport
      (world0 (chip0 0x61840000 False) (devices ! 0)
        ((options0 [] 0)\<lparr>fuse_verify := True, fuse_section := 1\<rparr>)))
    = Some (Inl (UnsupportedFuseSection 1))"
  by (simp add: target_fuse_def verdict_def world0_def options0_def)

lemma fuse_section_unsupported:
  assumes "fuse_section (target_options w) \<noteq> 0"
  shows "target_fuse T w =
    Some (Inl (UnsupportedFuseSection (fuse_section (target_options w)), w))"
  using assms by (simp add: target_fuse_def Let_def)

lemma fuse_range_required:
  assumes "fuse_verify (target_options w)" and "fuse_name (target_options w) = None"
    and "fuse_start (target_options w) = -1" and "fuse_section (target_options w) = 0"
    and "fuse_write (target_options w) \<longrightarrow> responsive T"
  shows "\<exists>w'. target_fuse T w = Some (Inl (FuseRangeRequired, w')) \<and>
    last (trace w') = ReadBlock USER_ROW_ADDR 512"
proof -
  define sz where "sz = (if fuse_size (target_options w) < USER_ROW_SIZE
    then fuse_size (target_options w) else USER_ROW_SIZE)"
  obtain buf w1 where r: "dap_read_block T USER_ROW_ADDR (nat USER_ROW_SIZE) w = (buf, w1)"
    by (cases "dap_read_block T USER_ROW_ADDR (nat USER_ROW_SIZE) w")
  have "buf = fst (dap_read_block T USER_ROW_ADDR (nat USER_ROW_SIZE) w)"
    using r by simp
  then have buf: "length buf = 512"
    by (simp add: USER_ROW_SIZE_def)
  have "w1 = snd (dap_read_block T USER_ROW_ADDR (nat USER_ROW_SIZE) w)"
    using r by simp
  then have o1: "target_options w1 = target_options w"
    by simp
  define w2 where "w2 = fuse_read_block T True buf w1"
  have o2: "target_options w2 = target_options w"
    by (simp add: w2_def o1)
  obtain w3 where w3: "fuse_write_block T sz buf w2 = Some (Inr w3)"
    and o3: "target_options w3 = target_options w"
    using fuse_write_block_run [of w2 T buf sz] assms(2,5) buf o2 by auto
  obtain buf' w4 where r': "dap_read_block T USER_ROW_ADDR (nat USER_ROW_SIZE) w3 = (buf', w4)"
    by (cases "dap_read_block T USER_ROW_ADDR (nat USER_ROW_SIZE) w3")
  have "w4 = snd (dap_read_block T USER_ROW_ADDR (nat USER_ROW_SIZE) w3)"
    using r' by simp
  then have w4: "target_options w4 = target_options w"
    "trace w4 = trace w3 @ [ReadBlock USER_ROW_ADDR 512]"
    by (simp_all add: o3 USER_ROW_SIZE_def)
  have "fuse_verify_block T True sz w3 = Some (Inl (FuseRangeRequired, w4))"
    using assms(1,2) r' by (simp add: fuse_verify_block_def o3 w4(1))
  then have "target_fuse T w = Some (Inl (FuseRangeRequired, w4))"
    using assms(3,4) r w3 by (simp add: target_fuse_def sz_def [symmetric] w2_def [symmetric])
  then show ?thesis
    using w4(2) by auto
qed

text \<open>
  C9, amended. A request for a section other than 0 exits with the unsupported-section
  error in the state it was made in: nothing has been read or written. For a request for
  the section 0 with the verify flag, no file name and no bit range (and, when the write
  flag is set too, a chip that shows its ready flag), \<^verbatim>\<open>target_fuse\<close> exits with the
  range-required error, whatever the chip returns, and the last thing it has done is the
  block read of the row: it reports no mismatch.
\<close>

theorem fuse_verify_needs_range:
  "(fuse_section (target_options w) \<noteq> 0 \<longrightarrow>
      target_fuse T w =
        Some (Inl (UnsupportedFuseSection (fuse_section (target_options w)), w))) \<and>
   (fuse_section (target_options w) = 0 \<and> fuse_verify (target_options w) \<and>
    fuse_name (target_options w) = None \<and> fuse_start (target_options w) = -1 \<and>
    (fuse_write (target_options w) \<longrightarrow> responsive T) \<longrightarrow>
      (\<exists>w'. target_fuse T w = Some (Inl (FuseRangeRequired, w')) \<and>
        last (trace w') = ReadBlock USER_ROW_ADDR 512))"
proof (intro conjI impI)
  assume "fuse_section (target_options w) \<noteq> 0"
  then show "target_fuse T w =
      Some (Inl (UnsupportedFuseSection (fuse_section (target_options w)), w))"
    by (rule fuse_section_unsupported)
next
  assume a: "fuse_section (target_options w) = 0 \<and> fuse_verify (target_options w) \<and>
    fuse_name (target_options w) = None \<and> fuse_start (target_options w) = -1 \<and>
    (fuse_write (target_options w) \<longrightarrow> responsive T)"
  show "\<exists>w'. target_fuse T w = Some (Inl (FuseRangeRequired, w')) \<and>
      last (trace w') = ReadBlock USER_ROW_ADDR 512"
    by (rule fuse_range_required) (use a in simp_all)
qed

theorem fuse_verify_needs_range_witness:
  "fuse_section (target_options (world0 (chip0 0x61840000 False) (devices ! 0)
      ((options0 [] 0)\<lparr>fuse_verify := True, fuse_section := 2\<rparr>))) \<noteq> 0 \<and>
   target_fuse chip_transport (world0 (chip0 0x61840000 False) (devices ! 0)
      ((options0 [] 0)\<lparr>fuse_verify := True, fuse_section := 2\<rparr>))
     = Some (Inl (UnsupportedFuseSection 2, world0 (chip0 0x61840000 False) (devices ! 0)
      ((options0 [] 0)\<lparr>fuse_verify := True, fuse_section := 2\<rparr>))) \<and>
   fuse_section (target_options (world0 (chip0 0x61840000 False) (devices ! 0)
      ((options0 [] 0)\<lparr>fuse_write := True, fuse_verify := True\<rparr>))) = 0 \<and>
   fuse_verify (target_options (world0 (chip0 0x61840000 False) (devices ! 0)
      ((options0 [] 0)\<lparr>fuse_write := True, fuse_verify := True\<rparr>))) \<and>
   fuse_name (target_options (world0 (chip0 0x61840000 False) (devices ! 0)
      ((options0 [] 0)\<lparr>fuse_write := True, fuse_verify := True\<rparr>))) = None \<and>
   fuse_start (target_options (world0 (chip0 0x61840000 False) (devices ! 0)
      ((options0 [] 0)\<lparr>fuse_write := True, fuse_verify := True\<rparr>))) = -1 \<and>
   fuse_write (target_options (world0 (chip0 0x61840000 False) (devices ! 0)
      ((options0 [] 0)\<lparr>fuse_write := True, fuse_verify := True\<rparr>))) \<and>
   responsive chip_transport \<and>
   (\<exists>w'. target_fuse chip_transport (world0 (chip0 0x61840000 False) (devices ! 0)
      ((options0 [] 0)\<lparr>fuse_write := True, fuse_verify := True\<rparr>))
        = Some (Inl (FuseRangeRequired, w')) \<and>
      last (trace w') = ReadBlock USER_ROW_ADDR 512)"
proof -
  let ?v = "world0 (chip0 0x61840000 False) (devices ! 0)
      ((options0 [] 0)\<lparr>fuse_verify := True, fuse_section := 2\<rparr>)"
  let ?w = "world0 (chip0 0x61840000 False) (devices ! 0)
      ((options0 [] 0)\<lparr>fuse_write := True, fuse_verify := True\<rparr>)"
  have 0: "fuse_section (target_options ?v) \<noteq> 0" "fuse_section (target_options ?v) = 2"
    by (simp_all add: world0_def options0_def)
  have 1: "fuse_verify (target_options ?w)" and 2: "fuse_name (target_options ?w) = None"
    and 3: "fuse_start (target_options ?w) = -1" and 4: "fuse_section (target_options ?w) = 0"
    and 5: "fuse_write (target_options ?w)"
    by (simp_all add: world0_def options0_def)
  have "target_fuse chip_transport ?v = Some (Inl (UnsupportedFuseSection 2, ?v))"
    using fuse_verify_needs_range [of ?v chip_transport] 0 by simp
  moreover have "\<exists>w'. target_fuse chip_transport ?w = Some (Inl (FuseRangeRequired, w')) \<and>
      last (trace w') = ReadBlock USER_ROW_ADDR 512"
    using fuse_verify_needs_range [of ?w chip_transport] 1 2 3 4 5 responsive_chip by blast
  ultimately show ?thesis
    using 0(1) 1 2 3 4 5 responsive_chip by blast
qed

end
